theory Spec2Isabelle
  imports Main "HOL-Library.Word" "HOL-Library.Signed_Division"
begin

unbundle bit_operations_syntax

section \<open>Constants of interface.h and main.c\<close>

text \<open>
  The firmware is C for a 32-bit target: \<open>int32_t\<close> is \<open>32 word\<close> read with \<open>sint\<close>,
  \<open>uint8_t\<close> is \<open>8 word\<close>, \<open>uint16_t\<close> is \<open>16 word\<close>, and a byte on the serial line
  is a \<open>char\<close>.
\<close>

definition TRUE :: "8 word" where [simp]: "TRUE = 1"
definition FALSE :: "8 word" where [simp]: "FALSE = 0"

definition NUMSENSORS :: nat where "NUMSENSORS = 12"

definition UART_NONE :: "8 word" where [simp]: "UART_NONE = 0"
definition UART_BASIC :: "8 word" where [simp]: "UART_BASIC = 1"
definition UART_CSVINIT :: "8 word" where [simp]: "UART_CSVINIT = 2"
definition UART_CSV :: "8 word" where [simp]: "UART_CSV = 3"

definition LOGICAL_EM_EEPROM_SIZE :: nat where "LOGICAL_EM_EEPROM_SIZE = 32"
definition LOGICAL_EM_EEPROM_START :: nat where "LOGICAL_EM_EEPROM_START = 0"

definition NUM_SAMPLES :: "16 word" where "NUM_SAMPLES = 20"

definition LEVELMM_MAX :: "32 word" where "LEVELMM_MAX = 153"

text \<open>\<open>SENSORHEIGHT = (LEVELMM_MAX * 256) / (NUMSENSORS - 1)\<close>, unsigned arithmetic.\<close>

definition SENSORHEIGHT :: "32 word" where
  "SENSORHEIGHT = (LEVELMM_MAX * 256) div (of_nat NUMSENSORS - 1)"

text \<open>The global \<open>sensorHeight\<close> is initialised to \<open>SENSORHEIGHT\<close> and never assigned.\<close>

definition sensorHeight :: "32 word" where
  "sensorHeight = SENSORHEIGHT"

text \<open>Capacity of the static \<open>rxBuffer\<close> of \<open>receive_uart_cmd\<close>.\<close>

definition RX_BUFFER_SIZE :: nat where "RX_BUFFER_SIZE = 32"

definition sensorScale :: "16 word list" where
  "sensorScale = [0x01D0, 0x0100, 0x0100, 0x0100, 0x0100, 0x0100,
                  0x0100, 0x0100, 0x0100, 0x0100, 0x0100, 0x01C0]"

definition sensorLimits :: "16 word list" where
  "sensorLimits = [900, 550, 480, 480, 500, 450, 440, 450, 450, 400, 400, 550]"

definition arrayAxisLabel :: "16 word list" where
  "arrayAxisLabel = [-5, 0, 10, 20, 30, 40, 50, 60, 70, 80, 90, 100, 110, 120,
                     130, 140, 150, 153, 160, 0]"

definition NUL :: char where "NUL = CHR 0x00"
definition CR :: char where "CR = CHR 0x0D"
definition LF :: char where "LF = CHR 0x0A"

section \<open>Program state\<close>

text \<open>
  The globals of main.c and interface.c and the function-local statics
  (\<open>bufferIndex\<close>, \<open>rxBuffer\<close>, \<open>sampleIndex\<close>), together with the three external
  collaborators as far as the program observes them: the bytes written to the serial
  transport (\<open>uart_tx\<close>), the bytes waiting in its receive FIFO (\<open>uart_rx\<close>) and the
  records handed to the emulated EEPROM (\<open>eeprom_log\<close>: start address, the array
  passed, size in bytes).
\<close>

record lls_state =
  uartTxMode :: "8 word"
  storeSampleFlag :: "8 word"
  resetSampleFlag :: "8 word"
  cal_flag :: "8 word"
  sensorActiveCount :: "8 word"
  levelPercent :: "32 word"
  levelMm :: "32 word"
  sensorRaw :: "32 word list"
  sensorDiff :: "32 word list"
  sensorEmptyOffset :: "32 word list"
  sensorProcessed :: "32 word list"
  bufferIndex :: "16 word"
  rxBuffer :: "char list"
  sampleIndex :: "16 word"
  uart_tx :: string
  uart_rx :: "char list"
  eeprom_log :: "(nat \<times> 32 word list \<times> nat) list"

text \<open>The initialisers of the globals and statics.\<close>

definition init_state :: lls_state where
  "init_state =
     \<lparr> uartTxMode = UART_BASIC, storeSampleFlag = FALSE, resetSampleFlag = FALSE,
       cal_flag = FALSE, sensorActiveCount = 0, levelPercent = 0, levelMm = 0,
       sensorRaw = replicate NUMSENSORS 0, sensorDiff = replicate NUMSENSORS 0,
       sensorEmptyOffset = replicate LOGICAL_EM_EEPROM_SIZE 0,
       sensorProcessed = replicate NUMSENSORS 0,
       bufferIndex = 0, rxBuffer = replicate RX_BUFFER_SIZE NUL, sampleIndex = 0,
       uart_tx = [], uart_rx = [], eeprom_log = [] \<rparr>"

text \<open>The arrays have their declared sizes.\<close>

definition wf_state :: "lls_state \<Rightarrow> bool" where
  "wf_state s \<longleftrightarrow>
     length (sensorRaw s) = NUMSENSORS \<and> length (sensorDiff s) = NUMSENSORS \<and>
     length (sensorEmptyOffset s) = LOGICAL_EM_EEPROM_SIZE \<and>
     length (sensorProcessed s) = NUMSENSORS \<and> length (rxBuffer s) = RX_BUFFER_SIZE"

text \<open>
  What stops the program or leaves defined behaviour: \<open>handle_error\<close> spinning forever
  after an EEPROM failure, \<open>CY_ASSERT(0u)\<close> after a CAPSENSE failure, and a store
  outside \<open>rxBuffer\<close> (with the index used).
\<close>

datatype fault = EepromHalt | AssertHalt | RxBufferOverrun nat

text \<open>
  The status returned by the emulated EEPROM middleware, whose header is not among the
  sources: \<open>handle_error\<close> only tells success from every other status.
\<close>

datatype em_eeprom_status = CY_EM_EEPROM_SUCCESS | CY_EM_EEPROM_FAILED

text \<open>
  What the sensor source and the byte store answer during one pass of the main loop:
  whether the scan engine is busy, whether processing and restarting the scan succeed,
  the raw count of each slot (\<open>cy_capsense_tuner.sensorContext[i].raw\<close>, an unsigned
  scan count that the CAPSENSE middleware declares as \<open>uint16_t\<close>), and the status of
  a calibration write.
\<close>

record scan_env =
  capsense_busy :: bool
  process_widgets_ok :: bool
  scan_widgets_ok :: bool
  raw_counts :: "nat \<Rightarrow> 16 word"
  eeprom_write_status :: em_eeprom_status

section \<open>Serial output\<close>

text \<open>
  \<open>Cy_SCB_UART_PutString\<close> and \<open>Cy_SCB_UART_Put\<close> append to the transmitted bytes; the
  transport is taken to accept every byte.
\<close>

definition uart_put :: "string \<Rightarrow> lls_state \<Rightarrow> lls_state" where
  "uart_put str s = s\<lparr>uart_tx := uart_tx s @ str\<rparr>"

definition decimal :: "int list" where
  "decimal = [1000000000, 100000000, 10000000, 1000000, 100000, 10000, 1000, 100, 10, 1]"

text \<open>
  The inner \<open>while(number >= decimal[i])\<close> of \<open>display_decimal_val\<close>. Every entry of
  the table is positive, so the guard \<open>0 < d\<close> holds at every call; it is what makes
  the loop end.
\<close>

function count_digit :: "int \<Rightarrow> int \<Rightarrow> nat \<Rightarrow> int \<times> nat" where
  "count_digit number d digit =
     (if 0 < d \<and> d \<le> number then count_digit (number - d) d (digit + 1)
      else (number, digit))"
  by pat_completeness auto
termination
  by (relation "measure (\<lambda>(number, d, digit). nat number)") auto

text \<open>One round of the \<open>for(i = 0; i <= 9; i++)\<close> loop: (number, zero_flag, bytes sent).\<close>

definition digit_step :: "int \<Rightarrow> nat \<Rightarrow> int \<times> bool \<times> string \<Rightarrow> int \<times> bool \<times> string" where
  "digit_step leading_zeros i st =
     (case st of (number, zero_flag, out) \<Rightarrow>
        (case count_digit number (decimal ! i) 0 of (number', digit) \<Rightarrow>
           (let zero_flag' = (zero_flag \<or> 0 < digit) in
            (number', zero_flag',
             if zero_flag' \<or> i = 9 \<or> 10 - leading_zeros \<le> int i
             then out @ [char_of (digit + 48)] else out))))"

definition display_decimal_val :: "32 word \<Rightarrow> 8 word \<Rightarrow> string" where
  "display_decimal_val number leading_zeros =
     (let lz = (if 10 < sint leading_zeros then 10 else sint leading_zeros);
          neg = (sint number < 0);
          number1 = (if neg then number * (- 1) else number);
          sign = (if neg then ''-'' else '''')
      in case fold (digit_step lz) [0..<10] (sint number1, False, sign) of
           (n, z, out) \<Rightarrow> out)"

text \<open>
  The assignment to \<open>decimal_num\<close>: the operands are converted to \<open>unsigned\<close> by the
  constant \<open>0xFFFFFFFF\<close>, so the product wraps at 32 bits and the shift is logical.
\<close>

definition fraction_value :: "32 word \<Rightarrow> 8 word \<Rightarrow> 32 word \<Rightarrow> 32 word" where
  "fraction_value number fixed_shift dec_digits =
     drop_bit (unat fixed_shift)
       ((number AND drop_bit (31 - unat fixed_shift) 0xFFFFFFFF) * dec_digits)"

definition display_decimal_fixed_val :: "32 word \<Rightarrow> 8 word \<Rightarrow> 8 word \<Rightarrow> string" where
  "display_decimal_fixed_val number fixed_shift num_decimal =
     (let fixed_shift1 = (if 31 < fixed_shift then 31 else fixed_shift);
          num_decimal1 = (if 9 < num_decimal then 9 else num_decimal);
          whole = display_decimal_val (signed_drop_bit (unat fixed_shift1) number) 0
      in if 0 < num_decimal1
         then (let dec_digits = fold (\<lambda>i d. d * 10) [0..<unat num_decimal1] (1 :: 32 word);
                   decimal_num = fraction_value number fixed_shift1 dec_digits
               in whole @ ''.'' @ display_decimal_val decimal_num num_decimal1)
         else whole)"

text \<open>
  The fractional value that the specification describes for a 24.8 number: mask the
  low 8 bits, multiply by \<open>10 ^ n\<close>, shift right by 8.
\<close>

definition spec_frac_digits :: "32 word \<Rightarrow> nat \<Rightarrow> 32 word" where
  "spec_frac_digits v n = drop_bit 8 ((v AND 0xFF) * 10 ^ n)"

definition display_current_cal_val :: "lls_state \<Rightarrow> lls_state" where
  "display_current_cal_val s =
     uart_put (''EmptyCal='' @
               concat (map (\<lambda>i. display_decimal_val (sensorEmptyOffset s ! i) 0 @ '','')
                           [0..<NUMSENSORS]) @
               [CR, LF]) s"

section \<open>Calibration store\<close>

text \<open>
  \<open>handle_error\<close>: on any status but success interrupts are disabled, the message is
  sent and the program spins in \<open>while(1u)\<close>; nothing is observed of the state afterwards.
\<close>

definition handle_error :: "em_eeprom_status \<Rightarrow> string \<Rightarrow> lls_state \<Rightarrow> fault + lls_state" where
  "handle_error status message s =
     (if status \<noteq> CY_EM_EEPROM_SUCCESS then Inl EepromHalt else Inr s)"

definition store_calibration :: "em_eeprom_status \<Rightarrow> lls_state \<Rightarrow> fault + lls_state" where
  "store_calibration status s =
     (let s1 = fold (\<lambda>i t. t\<lparr>sensorEmptyOffset := (sensorEmptyOffset t)[i := sensorDiff t ! i]\<rparr>)
                    [0..<NUMSENSORS] s;
          s2 = display_current_cal_val s1;
          s3 = s2\<lparr>eeprom_log := eeprom_log s2 @
                 [(LOGICAL_EM_EEPROM_START, sensorEmptyOffset s2, LOGICAL_EM_EEPROM_SIZE)]\<rparr>
      in handle_error status (''Emulated EEPROM Write failed '' @ [CR, LF]) s3)"

text \<open>
  The start of \<open>main\<close> reads the stored offsets as \<open>int16_t\<close> values, sign-extended into
  the \<open>int32_t\<close> array.
\<close>

definition load_calibration :: "(nat \<Rightarrow> 16 word) \<Rightarrow> lls_state \<Rightarrow> lls_state" where
  "load_calibration eeprom s =
     fold (\<lambda>index t. t\<lparr>sensorEmptyOffset := (sensorEmptyOffset t)[index := scast (eeprom index)]\<rparr>)
          [0..<NUMSENSORS] s"

section \<open>Level pipeline (the body of the main loop)\<close>

text \<open>
  The body of the first \<open>for\<close> loop of a completed scan: the raw count is widened to
  \<open>int32_t\<close> and copied into the diff array.
\<close>

definition read_raw :: "scan_env \<Rightarrow> nat \<Rightarrow> lls_state \<Rightarrow> lls_state" where
  "read_raw e i s =
     (let s1 = s\<lparr>sensorRaw := (sensorRaw s)[i := ucast (raw_counts e i)]\<rparr>
      in s1\<lparr>sensorDiff := (sensorDiff s1)[i := sensorRaw s1 ! i]\<rparr>)"

text \<open>The body of the second \<open>for\<close> loop.\<close>

definition process_sensor :: "nat \<Rightarrow> lls_state \<Rightarrow> lls_state" where
  "process_sensor i s =
     (let d0 = sensorDiff s ! i - sensorEmptyOffset s ! i;
          d = (if sint d0 < 0 then 0 else d0);
          p = signed_drop_bit 8 (d * scast (sensorScale ! i));
          s1 = s\<lparr>sensorDiff := (sensorDiff s)[i := d],
                 sensorProcessed := (sensorProcessed s)[i := p]\<rparr>
      in if sint (sensorLimits ! i) sdiv 2 < sint p
         then (if i = 0 \<or> i = NUMSENSORS - 1
               then s1\<lparr>sensorActiveCount := sensorActiveCount s1 + 1\<rparr>
               else s1\<lparr>sensorActiveCount := sensorActiveCount s1 + 2\<rparr>)
         else s1)"

text \<open>
  The block under \<open>CY_CAPSENSE_NOT_BUSY\<close>. \<open>CY_ASSERT(0u)\<close> is taken as in a debug build,
  where it stops the program.
\<close>

definition scan_complete :: "scan_env \<Rightarrow> lls_state \<Rightarrow> fault + lls_state" where
  "scan_complete e s =
     (if \<not> process_widgets_ok e then Inl AssertHalt
      else (let s1 = fold (read_raw e) [0..<NUMSENSORS] s
            in if \<not> scan_widgets_ok e then Inl AssertHalt
               else (case (if cal_flag s1 = TRUE
                           then store_calibration (eeprom_write_status e) (s1\<lparr>cal_flag := FALSE\<rparr>)
                           else Inr s1) of
                       Inl f \<Rightarrow> Inl f
                     | Inr s2 \<Rightarrow>
                         Inr (fold process_sensor [0..<NUMSENSORS] (s2\<lparr>sensorActiveCount := 0\<rparr>)))))"

text \<open>Height and percent, computed on every pass of the loop.\<close>

definition calculate_level :: "lls_state \<Rightarrow> lls_state" where
  "calculate_level s =
     (let mm0 = ucast (sensorActiveCount s) * signed_drop_bit 1 sensorHeight;
          mm = (if sint (push_bit 8 LEVELMM_MAX - signed_drop_bit 2 sensorHeight) < sint mm0
                then push_bit 8 LEVELMM_MAX else mm0)
      in s\<lparr>levelMm := mm, levelPercent := (mm * 100) div LEVELMM_MAX\<rparr>)"

definition pipeline_cycle :: "scan_env \<Rightarrow> lls_state \<Rightarrow> fault + lls_state" where
  "pipeline_cycle e s =
     (case (if capsense_busy e then Inr s else scan_complete e s) of
        Inl f \<Rightarrow> Inl f
      | Inr s1 \<Rightarrow> Inr (calculate_level s1))"

section \<open>Command protocol\<close>

text \<open>A store into \<open>rxBuffer\<close>; an index at or beyond the capacity is outside the array.\<close>

definition rx_store :: "nat \<Rightarrow> char \<Rightarrow> lls_state \<Rightarrow> fault + lls_state" where
  "rx_store idx c s =
     (if idx < RX_BUFFER_SIZE then Inr (s\<lparr>rxBuffer := (rxBuffer s)[idx := c]\<rparr>)
      else Inl (RxBufferOverrun idx))"

text \<open>The C string held in a buffer: the bytes before the first NUL.\<close>

definition c_str :: "char list \<Rightarrow> string" where
  "c_str buf = takeWhile (\<lambda>c. c \<noteq> NUL) buf"

definition memset_nul :: "nat \<Rightarrow> char list \<Rightarrow> char list" where
  "memset_nul n buf = replicate n NUL @ drop n buf"

text \<open>The \<open>strcmp\<close> chain run on a line terminator.\<close>

definition run_command :: "lls_state \<Rightarrow> lls_state" where
  "run_command s =
     (let line = c_str (rxBuffer s)
      in if line = ''cal'' then s\<lparr>cal_flag := TRUE\<rparr>
         else if line = ''stop'' then s\<lparr>uartTxMode := UART_NONE\<rparr>
         else if line = ''csv'' then s\<lparr>uartTxMode := UART_CSVINIT\<rparr>
         else if line = ''basic'' then s\<lparr>uartTxMode := UART_BASIC\<rparr>
         else if line = [] then s\<lparr>storeSampleFlag := TRUE, uartTxMode := UART_NONE\<rparr>
         else if line = ''reset'' then s\<lparr>resetSampleFlag := TRUE, uartTxMode := UART_NONE\<rparr>
         else uart_put (''Command Error'' @ [CR, LF]) s)"

definition receive_uart_cmd :: "lls_state \<Rightarrow> fault + lls_state" where
  "receive_uart_cmd s =
     (case uart_rx s of
        [] \<Rightarrow> Inr s
      | read_data # rest \<Rightarrow>
          (case (if 48 < (of_char read_data :: nat)
                 then (case rx_store (unat (bufferIndex s)) read_data
                               (uart_put [read_data] (s\<lparr>uart_rx := rest\<rparr>)) of
                         Inl f \<Rightarrow> Inl f
                       | Inr s1 \<Rightarrow> Inr (s1\<lparr>bufferIndex := bufferIndex s1 + 1\<rparr>))
                 else Inr (s\<lparr>uart_rx := rest\<rparr>)) of
             Inl f \<Rightarrow> Inl f
           | Inr s2 \<Rightarrow>
               if read_data = CR \<or> read_data = LF
               then (case rx_store (unat (bufferIndex s2)) NUL s2 of
                       Inl f \<Rightarrow> Inl f
                     | Inr s3 \<Rightarrow>
                         (let s4 = run_command s3
                          in Inr (s4\<lparr>bufferIndex := 0,
                                     rxBuffer := memset_nul (length (c_str (rxBuffer s4)))
                                                   (rxBuffer s4)\<rparr>)))
               else Inr s2))"

section \<open>Telemetry\<close>

definition sample_header :: string where
  "sample_header =
     ''PresetMm,'' @
     concat (map (\<lambda>i. ''SenDiff'' @ display_decimal_val (of_nat i) 0 @ '','') [1..<NUMSENSORS]) @
     ''Level%, LevelMm'' @ [CR, LF]"

definition sample_row :: "lls_state \<Rightarrow> string" where
  "sample_row s =
     display_decimal_val (scast (arrayAxisLabel ! unat (sampleIndex s))) 0 @ '','' @
     concat (map (\<lambda>i. display_decimal_val (sensorProcessed s ! i) 0 @ '','') [1..<NUMSENSORS]) @
     display_decimal_fixed_val (levelPercent s) 8 1 @ '','' @
     display_decimal_fixed_val (levelMm s) 8 1 @ [CR, LF]"

definition display_next_level_val :: "lls_state \<Rightarrow> lls_state" where
  "display_next_level_val s =
     (let s1 = (if storeSampleFlag s = TRUE
                then (let t = s\<lparr>uartTxMode := UART_NONE\<rparr>;
                          t1 = (if sampleIndex t = 0 then uart_put sample_header t else t);
                          t2 = uart_put (sample_row t1) t1;
                          t3 = t2\<lparr>sampleIndex := sampleIndex t2 + 1\<rparr>;
                          t4 = (if NUM_SAMPLES \<le> sampleIndex t3
                                then t3\<lparr>sampleIndex := NUM_SAMPLES - 1\<rparr> else t3)
                      in t4\<lparr>storeSampleFlag := FALSE\<rparr>)
                else s)
      in if resetSampleFlag s1 = TRUE
         then (uart_put (''Reset Test Level'' @ [CR, LF]) (s1\<lparr>sampleIndex := 0\<rparr>))
                \<lparr>resetSampleFlag := FALSE, storeSampleFlag := FALSE\<rparr>
         else s1)"

definition basic_line :: "lls_state \<Rightarrow> string" where
  "basic_line s =
     ''%='' @ display_decimal_val (signed_drop_bit 8 (levelPercent s)) 0 @ ''.'' @
     display_decimal_val (signed_drop_bit 8 ((levelPercent s AND 0x000000FF) * 10)) 0 @
     ''   mm='' @ display_decimal_val (signed_drop_bit 8 (levelMm s)) 0 @ ''.'' @
     display_decimal_val (signed_drop_bit 8 ((levelMm s AND 0x000000FF) * 10)) 0 @ [CR, LF]"

definition csv_header :: string where
  "csv_header =
     concat (map (\<lambda>i. ''Raw'' @ display_decimal_val (of_nat i) 0 @ '','' @
                       ''Diff'' @ display_decimal_val (of_nat i) 0 @ '','' @
                       ''Proc'' @ display_decimal_val (of_nat i) 0 @ '','') [0..<NUMSENSORS]) @
     ''SenActCnt,'' @ ''Level%, LevelMm'' @ [CR, LF]"

definition csv_row :: "lls_state \<Rightarrow> string" where
  "csv_row s =
     concat (map (\<lambda>i. display_decimal_val (sensorRaw s ! i) 0 @ '','' @
                       display_decimal_val (sensorDiff s ! i) 0 @ '','' @
                       display_decimal_val (sensorProcessed s ! i) 0 @ '','') [0..<NUMSENSORS]) @
     display_decimal_val (ucast (sensorActiveCount s)) 0 @ '','' @
     display_decimal_fixed_val (levelPercent s) 8 1 @ '','' @
     display_decimal_fixed_val (levelMm s) 8 1 @ [CR, LF]"

text \<open>The mode-dependent first part of \<open>display_cur_liquid_level\<close>.\<close>

definition render_level :: "lls_state \<Rightarrow> lls_state" where
  "render_level s =
     (if uartTxMode s = UART_BASIC then uart_put (basic_line s) s
      else if uartTxMode s = UART_CSVINIT \<or> uartTxMode s = UART_CSV
      then (if uartTxMode s = UART_CSVINIT
            then (uart_put csv_header s)\<lparr>uartTxMode := UART_CSV\<rparr>
            else uart_put (csv_row s) s)
      else s)"

definition display_cur_liquid_level :: "lls_state \<Rightarrow> fault + lls_state" where
  "display_cur_liquid_level s =
     (case receive_uart_cmd (render_level s) of
        Inl f \<Rightarrow> Inl f
      | Inr s1 \<Rightarrow> Inr (display_next_level_val s1))"

text \<open>One pass of \<open>for (;;)\<close> in \<open>main\<close>.\<close>

definition main_loop_pass :: "scan_env \<Rightarrow> lls_state \<Rightarrow> fault + lls_state" where
  "main_loop_pass e s =
     (case pipeline_cycle e s of Inl f \<Rightarrow> Inl f | Inr s1 \<Rightarrow> display_cur_liquid_level s1)"

text \<open>Successive calls of \<open>receive_uart_cmd\<close> and successive render cycles.\<close>

fun receive_calls :: "nat \<Rightarrow> lls_state \<Rightarrow> fault + lls_state" where
  "receive_calls 0 s = Inr s"
| "receive_calls (Suc n) s =
     (case receive_uart_cmd s of Inl f \<Rightarrow> Inl f | Inr s1 \<Rightarrow> receive_calls n s1)"

fun render_cycles :: "nat \<Rightarrow> lls_state \<Rightarrow> fault + lls_state" where
  "render_cycles 0 s = Inr s"
| "render_cycles (Suc n) s =
     (case display_cur_liquid_level s of Inl f \<Rightarrow> Inl f | Inr s1 \<Rightarrow> render_cycles n s1)"

section \<open>Notions used to state the claims\<close>

text \<open>The bytes of an input line that \<open>receive_uart_cmd\<close> keeps: those above \<open>'0'\<close>.\<close>

definition kept_bytes :: "char list \<Rightarrow> string" where
  "kept_bytes line = filter (\<lambda>c. 48 < (of_char c :: nat)) line"

text \<open>The line buffer holds the bytes \<open>pre\<close> accumulated so far and is NUL behind them.\<close>

definition line_buffer :: "lls_state \<Rightarrow> string \<Rightarrow> bool" where
  "line_buffer s pre \<longleftrightarrow>
     unat (bufferIndex s) = length pre \<and> length pre \<le> RX_BUFFER_SIZE \<and>
     rxBuffer s = pre @ replicate (RX_BUFFER_SIZE - length pre) NUL"

text \<open>The six lines of the command table.\<close>

definition command_table :: "string list" where
  "command_table = [''cal'', ''stop'', ''csv'', ''basic'', [], ''reset'']"

text \<open>
  The weight a slot adds to the active count: the submersion test on its processed
  value, 1 for the first and last slot, 2 for the others.
\<close>

definition slot_weight :: "nat \<Rightarrow> 32 word \<Rightarrow> nat" where
  "slot_weight i p =
     (if sint (sensorLimits ! i) sdiv 2 < sint p
      then (if i = 0 \<or> i = NUMSENSORS - 1 then 1 else 2) else 0)"

text \<open>
  The baselines the program can hold: an \<open>int16_t\<close> read from the store at start-up or
  a \<open>uint16_t\<close> raw count saved by a calibration.
\<close>

definition baseline_in_range :: "lls_state \<Rightarrow> bool" where
  "baseline_in_range s \<longleftrightarrow>
     list_all (\<lambda>b. - 32768 \<le> sint b \<and> sint b \<le> 65535) (take NUMSENSORS (sensorEmptyOffset s))"

text \<open>A state with the line buffer set to hold \<open>pre\<close>.\<close>

definition with_line :: "lls_state \<Rightarrow> string \<Rightarrow> lls_state" where
  "with_line s pre =
     s\<lparr>bufferIndex := of_nat (length pre),
       rxBuffer := pre @ replicate (RX_BUFFER_SIZE - length pre) NUL\<rparr>"

text \<open>
  What the second loop of a completed scan stores for slot \<open>i\<close>, in terms of the state
  the loop starts from.
\<close>

definition slot_diff :: "lls_state \<Rightarrow> nat \<Rightarrow> 32 word" where
  "slot_diff s i =
     (let d0 = sensorDiff s ! i - sensorEmptyOffset s ! i in if sint d0 < 0 then 0 else d0)"

definition slot_processed :: "lls_state \<Rightarrow> nat \<Rightarrow> 32 word" where
  "slot_processed s i = signed_drop_bit 8 (slot_diff s i * scast (sensorScale ! i))"

text \<open>
  The collaborators let a pass of the main loop run through a completed scan: the scan
  engine is idle and reports success, and a requested calibration write succeeds.
\<close>

definition cycle_completes :: "scan_env \<Rightarrow> lls_state \<Rightarrow> bool" where
  "cycle_completes e s \<longleftrightarrow>
     \<not> capsense_busy e \<and> process_widgets_ok e \<and> scan_widgets_ok e \<and>
     (cal_flag s = TRUE \<and> eeprom_write_status e = CY_EM_EEPROM_SUCCESS \<or> cal_flag s \<noteq> TRUE)"

text \<open>The raw counts of a scan as the loop stores them.\<close>

definition raw_values :: "scan_env \<Rightarrow> 32 word list" where
  "raw_values e = map (\<lambda>j. ucast (raw_counts e j)) [0..<NUMSENSORS]"

text \<open>The part of the state that the command protocol and the sample sequence own.\<close>

definition protocol_view ::
  "lls_state \<Rightarrow> 8 word \<times> 8 word \<times> 8 word \<times> 16 word \<times> char list \<times> 16 word \<times> char list" where
  "protocol_view s =
     (uartTxMode s, storeSampleFlag s, resetSampleFlag s, bufferIndex s, rxBuffer s,
      sampleIndex s, uart_rx s)"

section \<open>C1: stores into the line buffer\<close>

text \<open>
  C1 (stated in the specification): for every sequence of input bytes, every store of
  \<open>receive_uart_cmd\<close> into \<open>rxBuffer\<close> uses an index below the capacity 32, and the
  bytes of an over-long line are dropped. The function has no bound on \<open>bufferIndex\<close>:
  after 32 accepted bytes the 33rd is stored at index 32, and a terminator after 32
  accepted bytes writes the closing NUL at index 32. Both stores are outside the array.
\<close>

theorem receive_uart_cmd_overrun:
  "receive_calls 33 (init_state\<lparr>uart_rx := replicate 33 CHR ''a''\<rparr>) = Inl (RxBufferOverrun 32) \<and>
   receive_calls 33 (init_state\<lparr>uart_rx := replicate 32 CHR ''a'' @ [CR]\<rparr>)
     = Inl (RxBufferOverrun 32)"
  by code_simp

section \<open>C2: fractional digits of the fixed-point renderer\<close>

text \<open>
  C2 (stated in the specification): with \<open>fixed_shift = 8\<close> the fractional digits are the
  low 8 bits times \<open>10 ^ n\<close>, shifted right by 8. The mask of the code is
  \<open>0xFFFFFFFF >> (31 - fixed_shift)\<close>, which keeps 9 bits. At 3560 (the height for an
  active count of 2, 13.90625 mm) and one digit the code computes 19 and prints
  \<open>13.19\<close>, where the 8-bit mask gives 9.
\<close>

theorem display_decimal_fixed_val_mask:
  "fraction_value 3560 8 10 = 19 \<and> spec_frac_digits 3560 1 = 9 \<and>
   display_decimal_fixed_val 3560 8 1 = ''13.19'' \<and>
   levelMm (calculate_level (init_state\<lparr>sensorActiveCount := 2\<rparr>)) = 3560"
  by code_simp

section \<open>Machine arithmetic without overflow\<close>

lemma uint8_bound: "uint (x :: 8 word) < 256"
  using uint_lt2p [of x] by simp

lemma uint16_bound: "uint (x :: 16 word) < 65536"
  using uint_lt2p [of x] by simp

lemma sint16_bound: "- 32768 \<le> sint (x :: 16 word) \<and> sint x < 32768"
  using sint_lt [of x] sint_ge [of x] by simp

lemma stb31_self:
  "- 2147483648 \<le> k \<Longrightarrow> k < 2147483648 \<Longrightarrow> signed_take_bit 31 (k :: int) = k"
  by (rule signed_take_bit_int_eq_self) simp_all

lemma sint_ucast_8_32: "sint (ucast (x :: 8 word) :: 32 word) = uint x"
proof -
  define a where "a = uint x"
  have "0 \<le> a" "a < 256" using uint8_bound [of x] by (simp_all add: a_def)
  then have "signed_take_bit 31 a = a" by (intro stb31_self) linarith+
  then show ?thesis by (simp add: signed_ucast_eq a_def)
qed

lemma sint_ucast_16_32: "sint (ucast (x :: 16 word) :: 32 word) = uint x"
proof -
  define a where "a = uint x"
  have "0 \<le> a" "a < 65536" using uint16_bound [of x] by (simp_all add: a_def)
  then have "signed_take_bit 31 a = a" by (intro stb31_self) linarith+
  then show ?thesis by (simp add: signed_ucast_eq a_def)
qed

lemma sint_scast_16_32: "sint (scast (x :: 16 word) :: 32 word) = sint x"
  by (simp add: sint_up_scast is_up)

lemma sint_sub_noov:
  "- 2147483648 \<le> sint (a :: 32 word) - sint b \<Longrightarrow> sint a - sint b < 2147483648
   \<Longrightarrow> sint (a - b) = sint a - sint b"
  by (simp add: sint_word_ariths stb31_self)

lemma sint_mul_noov:
  "- 2147483648 \<le> sint (a :: 32 word) * sint b \<Longrightarrow> sint a * sint b < 2147483648
   \<Longrightarrow> sint (a * b) = sint a * sint b"
  by (simp add: sint_word_ariths stb31_self)

section \<open>C5: snap to the maximum height\<close>

lemma sensorHeight_val: "sensorHeight = 3560"
  by (simp add: sensorHeight_def SENSORHEIGHT_def LEVELMM_MAX_def NUMSENSORS_def)

lemma level_consts:
  "signed_drop_bit (Suc 0) sensorHeight = 1780"
  "signed_drop_bit 2 sensorHeight = 890"
  "push_bit 8 LEVELMM_MAX = (39168 :: 32 word)"
  by (simp_all add: sensorHeight_val LEVELMM_MAX_def)

lemma mm0_val:
  assumes "unat (ac :: 8 word) \<le> 22"
  shows "sint ((ucast ac :: 32 word) * 1780) = uint ac * 1780"
proof -
  define a where "a = uint ac"
  have "uint ac = int (unat ac)" by (rule uint_nat)
  with assms have u: "0 \<le> a" "a \<le> 22" unfolding a_def by linarith+
  have c: "sint (ucast ac :: 32 word) = a" by (simp add: sint_ucast_8_32 a_def)
  have "sint ((ucast ac :: 32 word) * 1780) = sint (ucast ac :: 32 word) * sint (1780 :: 32 word)"
  proof (rule sint_mul_noov)
    show "- 2147483648 \<le> sint (ucast ac :: 32 word) * sint (1780 :: 32 word)"
      unfolding c using u by simp
    show "sint (ucast ac :: 32 word) * sint (1780 :: 32 word) < 2147483648"
      unfolding c using u by simp
  qed
  then show ?thesis unfolding c by (simp add: a_def)
qed

lemma calculate_level_mm:
  assumes "unat (sensorActiveCount s) \<le> 22"
  shows "sint (levelMm (calculate_level s)) =
           (let h = uint (sensorActiveCount s) * (sint sensorHeight div 2);
                top = sint LEVELMM_MAX * 256
            in if \<bar>top - h\<bar> < sint sensorHeight div 4 then top else h)"
proof -
  define a where "a = uint (sensorActiveCount s)"
  have "uint (sensorActiveCount s) = int (unat (sensorActiveCount s))" by (rule uint_nat)
  with assms have u: "0 \<le> a" "a \<le> 22" unfolding a_def by linarith+
  have m: "sint ((ucast (sensorActiveCount s) :: 32 word) * 1780) = a * 1780"
    unfolding a_def by (rule mm0_val [OF assms])
  have lv: "levelMm (calculate_level s) =
        (if 38278 < a * 1780 then 39168 else ucast (sensorActiveCount s) * 1780)"
    by (simp add: calculate_level_def level_consts Let_def m)
  have rhs: "(let h = uint (sensorActiveCount s) * (sint sensorHeight div 2);
                  top = sint LEVELMM_MAX * 256
              in if \<bar>top - h\<bar> < sint sensorHeight div 4 then top else h) =
             (if \<bar>39168 - a * 1780\<bar> < 890 then 39168 else a * 1780)"
    by (simp add: Let_def sensorHeight_val LEVELMM_MAX_def a_def)
  show ?thesis unfolding rhs lv using u m by auto
qed

text \<open>No multiple of the half slot height lies exactly a quarter slot from the maximum.\<close>

lemma off_grid: "\<bar>39168 - a * 1780\<bar> \<noteq> (890 :: int)"
proof
  assume h: "\<bar>39168 - a * 1780\<bar> = 890"
  have m: "(a * 1780) mod 1780 = 0" by simp
  from h have "a * 1780 = 38278 \<or> a * 1780 = 40058" by linarith
  then show False
  proof
    assume "a * 1780 = 38278"
    with m show False by simp
  next
    assume "a * 1780 = 40058"
    with m show False by simp
  qed
qed

text \<open>
  C5: for an active count the pipeline can produce (at most 22, see C6), with
  \<open>h = activeCount * (sensorHeight >> 1)\<close> and \<open>top = 153 << 8\<close>: when \<open>h\<close> is within
  \<open>sensorHeight / 4\<close> of \<open>top\<close> the height becomes exactly \<open>top\<close>, otherwise it stays
  \<open>h\<close>. The distance is never exactly \<open>sensorHeight / 4\<close>, so "within" may be read
  with or without the bound.
\<close>

theorem calculate_level_snap:
  assumes "unat (sensorActiveCount s) \<le> 22"
  shows "(let h = uint (sensorActiveCount s) * (sint sensorHeight div 2);
              top = sint LEVELMM_MAX * 256
          in sint (levelMm (calculate_level s)) =
               (if \<bar>top - h\<bar> < sint sensorHeight div 4 then top else h)
             \<and> \<bar>top - h\<bar> \<noteq> sint sensorHeight div 4)"
  using calculate_level_mm [OF assms] off_grid [of "uint (sensorActiveCount s)"]
  by (simp add: Let_def sensorHeight_val LEVELMM_MAX_def)

theorem calculate_level_snap_witness:
  "unat (sensorActiveCount (init_state\<lparr>sensorActiveCount := 22\<rparr>)) \<le> 22 \<and>
   sint (levelMm (calculate_level (init_state\<lparr>sensorActiveCount := 22\<rparr>))) = 39168 \<and>
   sint (levelMm (calculate_level (init_state\<lparr>sensorActiveCount := 21\<rparr>))) = 37380"
  using calculate_level_snap [of "init_state\<lparr>sensorActiveCount := 22\<rparr>"]
        calculate_level_snap [of "init_state\<lparr>sensorActiveCount := 21\<rparr>"]
  by (simp add: Let_def sensorHeight_val LEVELMM_MAX_def)

section \<open>Command protocol: one byte per call\<close>

lemma terminators_low:
  "\<not> 48 < (of_char CR :: nat)" "\<not> 48 < (of_char LF :: nat)" "\<not> 48 < (of_char NUL :: nat)"
  by (simp_all add: CR_def LF_def NUL_def)

lemma kept_not_terminator: "48 < (of_char c :: nat) \<Longrightarrow> c \<noteq> CR \<and> c \<noteq> LF \<and> c \<noteq> NUL"
  using terminators_low by auto

lemma NUL_notin_kept: "NUL \<notin> set (kept_bytes line)"
  using terminators_low(3) by (auto simp: kept_bytes_def)

lemma bufferIndex_of_line: "line_buffer s pre \<Longrightarrow> bufferIndex s = of_nat (length pre)"
proof -
  assume "line_buffer s pre"
  then have "unat (bufferIndex s) = length pre" by (simp add: line_buffer_def)
  then have "of_nat (unat (bufferIndex s)) = (of_nat (length pre) :: 16 word)" by simp
  then show ?thesis by simp
qed

lemma line_buffer_with_line: "line_buffer s pre \<Longrightarrow> with_line s pre = s"
  using bufferIndex_of_line [of s pre] by (simp add: line_buffer_def with_line_def)

lemma unat_index: "n \<le> RX_BUFFER_SIZE \<Longrightarrow> unat (of_nat n :: 16 word) = n"
  by (simp add: RX_BUFFER_SIZE_def unat_of_nat)

lemma with_line_line_buffer: "length pre \<le> RX_BUFFER_SIZE \<Longrightarrow> line_buffer (with_line s pre) pre"
  by (simp add: line_buffer_def with_line_def unat_index)

lemma with_line_fields [simp]:
  "uartTxMode (with_line s pre) = uartTxMode s"
  "storeSampleFlag (with_line s pre) = storeSampleFlag s"
  "resetSampleFlag (with_line s pre) = resetSampleFlag s"
  "cal_flag (with_line s pre) = cal_flag s"
  "sampleIndex (with_line s pre) = sampleIndex s"
  "uart_tx (with_line s pre) = uart_tx s"
  "uart_rx (with_line s pre) = uart_rx s"
  by (simp_all add: with_line_def)

lemma with_line_twice [simp]: "with_line (with_line s p) q = with_line s q"
  by (simp add: with_line_def)

lemma receive_keep:
  assumes lb: "line_buffer s pre" and len: "length pre < RX_BUFFER_SIZE"
    and rx: "uart_rx s = c # rest" and k: "48 < (of_char c :: nat)"
  shows "receive_uart_cmd s =
           Inr (with_line (s\<lparr>uart_rx := rest, uart_tx := uart_tx s @ [c]\<rparr>) (pre @ [c]))"
proof -
  from lb have i: "unat (bufferIndex s) = length pre"
    and b: "rxBuffer s = pre @ replicate (RX_BUFFER_SIZE - length pre) NUL"
    by (simp_all add: line_buffer_def)
  from len obtain m where m: "RX_BUFFER_SIZE - length pre = Suc m" 
    by (cases "RX_BUFFER_SIZE - length pre") auto
  have upd: "(rxBuffer s)[length pre := c] =
               (pre @ [c]) @ replicate (RX_BUFFER_SIZE - length (pre @ [c])) NUL"
    using m by (simp add: b list_update_append)
  have ix: "bufferIndex s + 1 = of_nat (length (pre @ [c]))"
    by (simp add: bufferIndex_of_line [OF lb])
  have "receive_uart_cmd s =
          Inr (s\<lparr>uart_rx := rest, uart_tx := uart_tx s @ [c],
                 rxBuffer := (rxBuffer s)[length pre := c], bufferIndex := bufferIndex s + 1\<rparr>)"
    using kept_not_terminator [OF k] len
    by (simp add: receive_uart_cmd_def rx k rx_store_def uart_put_def i)
  then show ?thesis by (simp add: with_line_def upd ix)
qed

lemma receive_skip:
  assumes rx: "uart_rx s = c # rest" and k: "\<not> 48 < (of_char c :: nat)"
    and t: "c \<noteq> CR" "c \<noteq> LF"
  shows "receive_uart_cmd s = Inr (s\<lparr>uart_rx := rest\<rparr>)"
  using k t by (simp add: receive_uart_cmd_def rx)

lemma receive_idle: "uart_rx s = [] \<Longrightarrow> receive_uart_cmd s = Inr s"
  by (simp add: receive_uart_cmd_def)

lemma c_str_line: "NUL \<notin> set pre \<Longrightarrow> c_str (pre @ NUL # xs) = pre"
  by (induction pre) (auto simp: c_str_def)

lemma run_command_rxBuffer: "rxBuffer (run_command s) = rxBuffer s"
  by (simp add: run_command_def Let_def uart_put_def)

lemma line_buffer_c_str:
  assumes lb: "line_buffer s pre" and len: "length pre < RX_BUFFER_SIZE"
    and nul: "NUL \<notin> set pre"
  shows "c_str (rxBuffer s) = pre"
proof -
  from lb have b: "rxBuffer s = pre @ replicate (RX_BUFFER_SIZE - length pre) NUL"
    by (simp add: line_buffer_def)
  from len obtain m where m: "RX_BUFFER_SIZE - length pre = Suc m" 
    by (cases "RX_BUFFER_SIZE - length pre") auto
  have b': "rxBuffer s = pre @ NUL # replicate m NUL" by (simp add: b m)
  show ?thesis unfolding b' by (rule c_str_line [OF nul])
qed

lemma receive_terminator:
  assumes lb: "line_buffer s pre" and len: "length pre < RX_BUFFER_SIZE"
    and nul: "NUL \<notin> set pre"
    and rx: "uart_rx s = t # rest" and t: "t = CR \<or> t = LF"
  shows "receive_uart_cmd s = Inr (with_line (run_command (s\<lparr>uart_rx := rest\<rparr>)) [])"
proof -
  from lb have i: "unat (bufferIndex s) = length pre"
    and b: "rxBuffer s = pre @ replicate (RX_BUFFER_SIZE - length pre) NUL"
    by (simp_all add: line_buffer_def)
  from len obtain m where m: "RX_BUFFER_SIZE - length pre = Suc m" 
    by (cases "RX_BUFFER_SIZE - length pre") auto
  have b': "rxBuffer s = pre @ NUL # replicate m NUL" by (simp add: b m)
  have upd: "(rxBuffer s)[length pre := NUL] = rxBuffer s"
    by (simp add: b' list_update_append)
  have c: "c_str (rxBuffer s) = pre" by (rule line_buffer_c_str [OF lb len nul])
  have lo: "\<not> 48 < (of_char t :: nat)" using t terminators_low by auto
  have e: "RX_BUFFER_SIZE = length pre + Suc m" using m len by arith
  have ms: "memset_nul (length pre) (rxBuffer s) = replicate RX_BUFFER_SIZE NUL"
    unfolding e by (simp add: memset_nul_def b' replicate_add replicate_append_same)
  have s_eq: "s\<lparr>uart_rx := rest, rxBuffer := rxBuffer s\<rparr> = s\<lparr>uart_rx := rest\<rparr>" by simp
  show ?thesis
    using t lo len
    by (simp add: receive_uart_cmd_def rx rx_store_def i upd Let_def run_command_rxBuffer
                  c ms s_eq with_line_def)
qed

lemma receive_calls_snoc:
  "receive_calls (Suc n) s =
     (case receive_calls n s of Inl f \<Rightarrow> Inl f | Inr s1 \<Rightarrow> receive_uart_cmd s1)"
proof (induction n arbitrary: s)
  case 0
  show ?case by (cases "receive_uart_cmd s") simp_all
next
  case (Suc n)
  have "receive_calls (Suc (Suc n)) s =
          (case receive_uart_cmd s of Inl f \<Rightarrow> Inl f | Inr s1 \<Rightarrow> receive_calls (Suc n) s1)"
    by simp
  also have "\<dots> = (case receive_uart_cmd s of Inl f \<Rightarrow> Inl f
                    | Inr s1 \<Rightarrow> (case receive_calls n s1 of Inl f \<Rightarrow> Inl f
                                | Inr s2 \<Rightarrow> receive_uart_cmd s2))"
    by (simp only: Suc.IH)
  also have "\<dots> = (case receive_calls (Suc n) s of Inl f \<Rightarrow> Inl f
                    | Inr s1 \<Rightarrow> receive_uart_cmd s1)"
    by (cases "receive_uart_cmd s") simp_all
  finally show ?case .
qed

lemma receive_line:
  assumes "line_buffer s pre" "uart_rx s = line @ rest" "CR \<notin> set line" "LF \<notin> set line"
    "length pre + length (kept_bytes line) \<le> RX_BUFFER_SIZE"
  shows "receive_calls (length line) s =
           Inr (with_line (s\<lparr>uart_rx := rest, uart_tx := uart_tx s @ kept_bytes line\<rparr>)
                          (pre @ kept_bytes line))"
  using assms
proof (induction line arbitrary: s pre)
  case Nil
  then have r: "rest = uart_rx s" by simp
  show ?case unfolding r by (simp add: kept_bytes_def line_buffer_with_line [OF Nil.prems(1)])
next
  case (Cons c line)
  show ?case
  proof (cases "48 < (of_char c :: nat)")
    case True
    let ?s1 = "with_line (s\<lparr>uart_rx := line @ rest, uart_tx := uart_tx s @ [c]\<rparr>) (pre @ [c])"
    from True Cons.prems have len: "length pre < RX_BUFFER_SIZE" 
      by (simp add: kept_bytes_def)
    have step: "receive_uart_cmd s = Inr ?s1"
      using receive_keep [OF Cons.prems(1) len _ True, of "line @ rest"] Cons.prems(2) by simp
    have lb1: "line_buffer ?s1 (pre @ [c])"
      using len by (intro with_line_line_buffer) simp
    have "receive_calls (length line) ?s1 =
           Inr (with_line (?s1\<lparr>uart_rx := rest, uart_tx := uart_tx ?s1 @ kept_bytes line\<rparr>)
                          ((pre @ [c]) @ kept_bytes line))"
      using Cons.prems True by (intro Cons.IH [OF lb1]) (simp_all add: kept_bytes_def)
    then show ?thesis using step True by (simp add: kept_bytes_def with_line_def)
  next
    case False
    let ?s1 = "s\<lparr>uart_rx := line @ rest\<rparr>"
    from Cons.prems have ne: "c \<noteq> CR" "c \<noteq> LF" by auto
    have step: "receive_uart_cmd s = Inr ?s1"
      using receive_skip [OF _ False ne, of s "line @ rest"] Cons.prems(2) by simp
    have lb1: "line_buffer ?s1 pre" using Cons.prems(1) by (simp add: line_buffer_def)
    have "receive_calls (length line) ?s1 =
           Inr (with_line (?s1\<lparr>uart_rx := rest, uart_tx := uart_tx ?s1 @ kept_bytes line\<rparr>)
                          (pre @ kept_bytes line))"
      using Cons.prems False by (intro Cons.IH [OF lb1]) (simp_all add: kept_bytes_def)
    then show ?thesis using step False by (simp add: kept_bytes_def)
  qed
qed

lemma run_command_unknown:
  "c_str (rxBuffer s) \<notin> set command_table \<Longrightarrow>
   run_command s = uart_put (''Command Error'' @ [CR, LF]) s"
  by (simp add: run_command_def command_table_def Let_def)

text \<open>
  C9, as amended. \<open>receive_uart_cmd\<close> keeps only the bytes above \<open>'0'\<close> of a line. When
  the line buffer is clear and the kept bytes of a completed line (fewer than the
  capacity 32) spell none of the six commands, processing the line and its terminator
  echoes the kept bytes, sends \<open>Command Error\<close> and a line break, and changes nothing
  else: mode, the three flags and the line buffer are as before, and the program goes on.
\<close>

theorem unknown_command:
  assumes clear: "line_buffer s []"
    and rx: "uart_rx s = line @ t # rest" and t: "t = CR \<or> t = LF"
    and body: "CR \<notin> set line" "LF \<notin> set line"
    and fits: "length (kept_bytes line) < RX_BUFFER_SIZE"
    and unknown: "kept_bytes line \<notin> set command_table"
  shows "receive_calls (Suc (length line)) s =
           Inr (s\<lparr>uart_rx := rest,
                  uart_tx := uart_tx s @ kept_bytes line @ ''Command Error'' @ [CR, LF]\<rparr>)"
proof -
  let ?k = "kept_bytes line"
  let ?s1 = "with_line (s\<lparr>uart_rx := t # rest, uart_tx := uart_tx s @ ?k\<rparr>) ?k"
  have acc: "receive_calls (length line) s = Inr ?s1"
    using receive_line [OF clear, of line "t # rest"] rx body fits by simp
  have lb1: "line_buffer ?s1 ?k" using fits by (intro with_line_line_buffer) simp
  have cs: "c_str (rxBuffer (?s1\<lparr>uart_rx := rest\<rparr>)) = ?k"
    using line_buffer_c_str [OF lb1 fits NUL_notin_kept] by (simp add: with_line_def)
  have fin_step: "receive_uart_cmd ?s1 = Inr (with_line (run_command (?s1\<lparr>uart_rx := rest\<rparr>)) [])"
    using receive_terminator [OF lb1 fits NUL_notin_kept _ t, of rest] by simp
  have rc: "run_command (?s1\<lparr>uart_rx := rest\<rparr>) =
              uart_put (''Command Error'' @ [CR, LF]) (?s1\<lparr>uart_rx := rest\<rparr>)"
    using unknown cs by (intro run_command_unknown) simp
  have fin: "with_line (uart_put (''Command Error'' @ [CR, LF]) (?s1\<lparr>uart_rx := rest\<rparr>)) [] =
             (with_line s [])\<lparr>uart_rx := rest,
                  uart_tx := uart_tx s @ kept_bytes line @ ''Command Error'' @ [CR, LF]\<rparr>"
    by (simp add: with_line_def uart_put_def)
  have "receive_calls (Suc (length line)) s = receive_uart_cmd ?s1"
    unfolding receive_calls_snoc acc by simp
  also have "\<dots> = Inr (with_line (uart_put (''Command Error'' @ [CR, LF])
                                              (?s1\<lparr>uart_rx := rest\<rparr>)) [])"
    by (simp only: fin_step rc)
  finally show ?thesis
    by (simp only: fin line_buffer_with_line [OF clear])
qed

theorem unknown_command_witness:
  "line_buffer (init_state\<lparr>uart_rx := ''set 5'' @ [CR]\<rparr>) [] \<and>
   kept_bytes ''set 5'' = ''set5'' \<and> ''set5'' \<notin> set command_table \<and>
   receive_calls 6 (init_state\<lparr>uart_rx := ''set 5'' @ [CR]\<rparr>) =
     Inr (init_state\<lparr>uart_tx := ''set5Command Error'' @ [CR, LF]\<rparr>)"
proof -
  let ?s = "init_state\<lparr>uart_rx := ''set 5'' @ [CR]\<rparr>"
  have clear: "line_buffer ?s []"
    by (simp add: line_buffer_def init_state_def)
  have k: "kept_bytes ''set 5'' = ''set5''" by (simp add: kept_bytes_def)
  have rx: "uart_rx ?s = ''set 5'' @ CR # []" by simp
  have body: "CR \<notin> set ''set 5''" "LF \<notin> set ''set 5''" by (simp_all add: CR_def LF_def)
  have fits: "length (kept_bytes ''set 5'') < RX_BUFFER_SIZE" by (simp add: k RX_BUFFER_SIZE_def)
  have unk: "kept_bytes ''set 5'' \<notin> set command_table" by (simp add: k command_table_def)
  have n: "Suc (length ''set 5'') = 6" by simp
  have fin: "?s\<lparr>uart_rx := [], uart_tx := uart_tx ?s @ kept_bytes ''set 5'' @ ''Command Error'' @ [CR, LF]\<rparr>
             = init_state\<lparr>uart_tx := ''set5Command Error'' @ [CR, LF]\<rparr>"
    by (simp add: k init_state_def)
  have "receive_calls (Suc (length ''set 5'')) ?s =
          Inr (?s\<lparr>uart_rx := [], uart_tx := uart_tx ?s @ kept_bytes ''set 5'' @ ''Command Error'' @ [CR, LF]\<rparr>)"
    by (rule unknown_command [OF clear rx _ body fits unk]) simp
  then have "receive_calls 6 ?s = Inr (init_state\<lparr>uart_tx := ''set5Command Error'' @ [CR, LF]\<rparr>)"
    by (simp only: n fin)
  with clear k unk show ?thesis by (simp only: simp_thms)
qed

text \<open>
  The claim as stated fails on a line such as \<open>0\<close>: it is none of the six commands,
  but its only byte is not above \<open>'0'\<close> and is dropped, so the line is taken as the
  empty line: no error notice, the store-sample flag is set and the mode becomes NONE.
\<close>

theorem unknown_command_counterexample:
  "''0'' \<notin> set command_table \<and>
   receive_calls 2 (init_state\<lparr>uart_rx := ''0'' @ [CR]\<rparr>) =
     Inr (init_state\<lparr>uartTxMode := UART_NONE, storeSampleFlag := TRUE\<rparr>)"
proof
  show "''0'' \<notin> set command_table" by (simp add: command_table_def)
  show "receive_calls 2 (init_state\<lparr>uart_rx := ''0'' @ [CR]\<rparr>) =
     Inr (init_state\<lparr>uartTxMode := UART_NONE, storeSampleFlag := TRUE\<rparr>)"
    by code_simp
qed

section \<open>Render cycles\<close>

lemma render_level_frame:
  "render_level s = s\<lparr>uartTxMode := uartTxMode (render_level s), uart_tx := uart_tx (render_level s)\<rparr>"
  by (simp add: render_level_def uart_put_def)

lemma render_level_fields [simp]:
  "storeSampleFlag (render_level s) = storeSampleFlag s"
  "resetSampleFlag (render_level s) = resetSampleFlag s"
  "sampleIndex (render_level s) = sampleIndex s"
  "uart_rx (render_level s) = uart_rx s"
  "bufferIndex (render_level s) = bufferIndex s"
  "rxBuffer (render_level s) = rxBuffer s"
  by (simp_all add: render_level_def uart_put_def)

lemma line_buffer_render [simp]: "line_buffer (render_level s) pre = line_buffer s pre"
  by (simp add: line_buffer_def)

lemma display_next_idle:
  "storeSampleFlag s = FALSE \<Longrightarrow> resetSampleFlag s = FALSE \<Longrightarrow> display_next_level_val s = s"
  by (simp add: display_next_level_val_def)

lemma render_cycles_snoc:
  "render_cycles (Suc n) s =
     (case render_cycles n s of Inl f \<Rightarrow> Inl f | Inr s1 \<Rightarrow> display_cur_liquid_level s1)"
proof (induction n arbitrary: s)
  case 0
  show ?case by (cases "display_cur_liquid_level s") simp_all
next
  case (Suc n)
  have "render_cycles (Suc (Suc n)) s =
          (case display_cur_liquid_level s of Inl f \<Rightarrow> Inl f | Inr s1 \<Rightarrow> render_cycles (Suc n) s1)"
    by simp
  also have "\<dots> = (case display_cur_liquid_level s of Inl f \<Rightarrow> Inl f
                    | Inr s1 \<Rightarrow> (case render_cycles n s1 of Inl f \<Rightarrow> Inl f
                                | Inr s2 \<Rightarrow> display_cur_liquid_level s2))"
    by (simp only: Suc.IH)
  also have "\<dots> = (case render_cycles (Suc n) s of Inl f \<Rightarrow> Inl f
                    | Inr s1 \<Rightarrow> display_cur_liquid_level s1)"
    by (cases "display_cur_liquid_level s") simp_all
  finally show ?case .
qed

lemma display_keep:
  assumes lb: "line_buffer s pre" and len: "length pre < RX_BUFFER_SIZE"
    and rx: "uart_rx s = c # rest" and k: "48 < (of_char c :: nat)"
    and fl: "storeSampleFlag s = FALSE" "resetSampleFlag s = FALSE"
  shows "display_cur_liquid_level s =
           Inr (with_line (s\<lparr>uartTxMode := uartTxMode (render_level s), uart_rx := rest,
                             uart_tx := uart_tx (render_level s) @ [c]\<rparr>) (pre @ [c]))"
proof -
  let ?r = "render_level s"
  have "receive_uart_cmd ?r = Inr (with_line (?r\<lparr>uart_rx := rest, uart_tx := uart_tx ?r @ [c]\<rparr>) (pre @ [c]))"
    using lb len rx k by (intro receive_keep) simp_all
  also have "?r\<lparr>uart_rx := rest, uart_tx := uart_tx ?r @ [c]\<rparr> =
             s\<lparr>uartTxMode := uartTxMode ?r, uart_rx := rest, uart_tx := uart_tx ?r @ [c]\<rparr>"
    by (subst render_level_frame) simp
  finally show ?thesis
    using fl by (simp add: display_cur_liquid_level_def display_next_idle)
qed

lemma display_terminator:
  assumes lb: "line_buffer s pre" and len: "length pre < RX_BUFFER_SIZE"
    and nul: "NUL \<notin> set pre"
    and rx: "uart_rx s = t # rest" and t: "t = CR \<or> t = LF"
  shows "display_cur_liquid_level s =
           Inr (display_next_level_val
                  (with_line (run_command ((render_level s)\<lparr>uart_rx := rest\<rparr>)) []))"
proof -
  have "receive_uart_cmd (render_level s) =
          Inr (with_line (run_command ((render_level s)\<lparr>uart_rx := rest\<rparr>)) [])"
    using lb len nul rx t by (intro receive_terminator [where pre = pre]) simp_all
  then show ?thesis by (simp add: display_cur_liquid_level_def)
qed

lemma display_idle:
  assumes "uart_rx s = []" "storeSampleFlag s = FALSE" "resetSampleFlag s = FALSE"
  shows "display_cur_liquid_level s = Inr (render_level s)"
  using assms by (simp add: display_cur_liquid_level_def receive_idle display_next_idle)

lemma render_line:
  assumes "line_buffer s pre" "uart_rx s = line @ rest" "\<forall>c\<in>set line. 48 < (of_char c :: nat)"
    "length pre + length line \<le> RX_BUFFER_SIZE"
    "storeSampleFlag s = FALSE" "resetSampleFlag s = FALSE"
  shows "\<exists>m out. render_cycles (length line) s =
           Inr (with_line (s\<lparr>uartTxMode := m, uart_rx := rest, uart_tx := out\<rparr>) (pre @ line))"
  using assms
proof (induction line arbitrary: s pre)
  case Nil
  then have r: "rest = uart_rx s" by simp
  have "s = with_line (s\<lparr>uartTxMode := uartTxMode s, uart_rx := rest, uart_tx := uart_tx s\<rparr>) pre"
    unfolding r by (simp add: line_buffer_with_line [OF Nil.prems(1)])
  then show ?case by (metis append_Nil2 list.size(3) render_cycles.simps(1))
next
  case (Cons c line)
  let ?s1 = "with_line (s\<lparr>uartTxMode := uartTxMode (render_level s), uart_rx := line @ rest,
                             uart_tx := uart_tx (render_level s) @ [c]\<rparr>) (pre @ [c])"
  from Cons.prems have len: "length pre < RX_BUFFER_SIZE" and k: "48 < (of_char c :: nat)"
    by simp_all
  have step: "display_cur_liquid_level s = Inr ?s1"
    using display_keep [OF Cons.prems(1) len _ k Cons.prems(5,6), of "line @ rest"] Cons.prems(2)
    by simp
  have lb1: "line_buffer ?s1 (pre @ [c])"
    using len by (intro with_line_line_buffer) simp
  have "\<exists>m out. render_cycles (length line) ?s1 =
           Inr (with_line (?s1\<lparr>uartTxMode := m, uart_rx := rest, uart_tx := out\<rparr>)
                          ((pre @ [c]) @ line))"
    using Cons.prems by (intro Cons.IH [OF lb1]) simp_all
  then obtain m out where
    "render_cycles (length line) ?s1 =
           Inr (with_line (?s1\<lparr>uartTxMode := m, uart_rx := rest, uart_tx := out\<rparr>)
                          ((pre @ [c]) @ line))" by blast
  then have "render_cycles (length (c # line)) s =
           Inr (with_line (s\<lparr>uartTxMode := m, uart_rx := rest, uart_tx := out\<rparr>) (pre @ c # line))"
    using step by (simp add: with_line_def)
  then show ?case by blast
qed

section \<open>C3: the CSV session\<close>

lemma with_line_updates:
  "with_line (s\<lparr>uartTxMode := m, uart_rx := r, uart_tx := out\<rparr>) p =
     (with_line s p)\<lparr>uartTxMode := m, uart_rx := r, uart_tx := out\<rparr>"
  by (simp add: with_line_def)

lemma render_then:
  "(render_level z)\<lparr>uart_rx := r, uartTxMode := m\<rparr> =
     z\<lparr>uartTxMode := m, uart_rx := r, uart_tx := uart_tx (render_level z)\<rparr>"
  by (subst render_level_frame) simp

lemma with_line_reset:
  "with_line ((with_line (s\<lparr>uartTxMode := m, uart_rx := r, uart_tx := out\<rparr>) p)
                \<lparr>uartTxMode := m', uart_rx := r', uart_tx := out'\<rparr>) q =
     (with_line s q)\<lparr>uartTxMode := m', uart_rx := r', uart_tx := out'\<rparr>"
  by (simp add: with_line_def)

lemma run_command_csv:
  "c_str (rxBuffer s) = ''csv'' \<Longrightarrow> run_command s = s\<lparr>uartTxMode := UART_CSVINIT\<rparr>"
  by (simp add: run_command_def Let_def)

lemma csv_row_frame [simp]:
  "csv_row (s\<lparr>uart_tx := out\<rparr>) = csv_row s"
  "csv_row (s\<lparr>uartTxMode := m\<rparr>) = csv_row s"
  "csv_row (s\<lparr>uart_rx := r\<rparr>) = csv_row s"
  by (simp_all add: csv_row_def)

lemma csvinit_cycle:
  assumes "uartTxMode s = UART_CSVINIT" "uart_rx s = []"
    "storeSampleFlag s = FALSE" "resetSampleFlag s = FALSE"
  shows "display_cur_liquid_level s =
           Inr (s\<lparr>uartTxMode := UART_CSV, uart_tx := uart_tx s @ csv_header\<rparr>)"
  using assms by (simp add: display_idle render_level_def uart_put_def)

lemma csv_cycle:
  assumes "uartTxMode s = UART_CSV" "uart_rx s = []"
    "storeSampleFlag s = FALSE" "resetSampleFlag s = FALSE"
  shows "display_cur_liquid_level s = Inr (s\<lparr>uart_tx := uart_tx s @ csv_row s\<rparr>)"
  using assms by (simp add: display_idle render_level_def uart_put_def)

lemma csv_cycles:
  assumes "uartTxMode s = UART_CSV" "uart_rx s = []"
    "storeSampleFlag s = FALSE" "resetSampleFlag s = FALSE"
  shows "render_cycles n s = Inr (s\<lparr>uart_tx := uart_tx s @ concat (replicate n (csv_row s))\<rparr>)"
  using assms
proof (induction n arbitrary: s)
  case 0
  show ?case by simp
next
  case (Suc n)
  let ?s1 = "s\<lparr>uart_tx := uart_tx s @ csv_row s\<rparr>"
  have "render_cycles n ?s1 =
          Inr (?s1\<lparr>uart_tx := uart_tx ?s1 @ concat (replicate n (csv_row ?s1))\<rparr>)"
    using Suc.prems by (intro Suc.IH) simp_all
  then show ?case using csv_cycle [OF Suc.prems] by simp
qed

lemma csv_command:
  assumes clear: "line_buffer s []"
    and fl: "storeSampleFlag s = FALSE" "resetSampleFlag s = FALSE"
    and rx: "uart_rx s = ''csv'' @ [t]" and t: "t = CR \<or> t = LF"
  shows "\<exists>out. render_cycles 4 s =
           Inr (s\<lparr>uartTxMode := UART_CSVINIT, uart_rx := [], uart_tx := out\<rparr>)"
proof -
  have kept: "\<forall>c\<in>set ''csv''. 48 < (of_char c :: nat)" by simp
  have fits: "length ([] :: string) + length ''csv'' \<le> RX_BUFFER_SIZE"
    by (simp add: RX_BUFFER_SIZE_def)
  from render_line [OF clear rx kept fits fl] obtain m out where r3': "render_cycles (length ''csv'') s =
           Inr (with_line (s\<lparr>uartTxMode := m, uart_rx := [t], uart_tx := out\<rparr>) ([] @ ''csv''))"
    by blast
  have l3: "length ''csv'' = 3" by simp
  have r3: "render_cycles 3 s =
           Inr (with_line (s\<lparr>uartTxMode := m, uart_rx := [t], uart_tx := out\<rparr>) ''csv'')"
    using r3' by (simp only: l3 append_Nil)
  let ?s3 = "with_line (s\<lparr>uartTxMode := m, uart_rx := [t], uart_tx := out\<rparr>) ''csv''"
  have len: "length ''csv'' < RX_BUFFER_SIZE" by (simp add: RX_BUFFER_SIZE_def)
  have lb3: "line_buffer ?s3 ''csv''"
    by (intro with_line_line_buffer) (simp add: RX_BUFFER_SIZE_def)
  have nul: "NUL \<notin> set ''csv''" by (simp add: NUL_def)
  let ?x = "(render_level ?s3)\<lparr>uart_rx := []\<rparr>"
  have d4: "display_cur_liquid_level ?s3 =
              Inr (display_next_level_val (with_line (run_command ?x) []))"
    using display_terminator [OF lb3 len nul _ t, of "[]"] by simp
  have cs: "c_str (rxBuffer ?x) = ''csv''"
    using line_buffer_c_str [OF lb3 len nul] by simp
  have rc: "run_command ?x = ?x\<lparr>uartTxMode := UART_CSVINIT\<rparr>"
    by (rule run_command_csv [OF cs])
  have shape: "with_line (?x\<lparr>uartTxMode := UART_CSVINIT\<rparr>) [] =
                 s\<lparr>uartTxMode := UART_CSVINIT, uart_rx := [], uart_tx := uart_tx (render_level ?s3)\<rparr>"
  proof -
    have a: "?x\<lparr>uartTxMode := UART_CSVINIT\<rparr> =
            ?s3\<lparr>uartTxMode := UART_CSVINIT, uart_rx := [], uart_tx := uart_tx (render_level ?s3)\<rparr>"
      by (rule render_then)
    have b: "with_line (?s3\<lparr>uartTxMode := UART_CSVINIT, uart_rx := [],
                              uart_tx := uart_tx (render_level ?s3)\<rparr>) [] =
            (with_line s [])\<lparr>uartTxMode := UART_CSVINIT, uart_rx := [],
                              uart_tx := uart_tx (render_level ?s3)\<rparr>"
      by (rule with_line_reset)
    show ?thesis by (simp only: a b line_buffer_with_line [OF clear])
  qed
  have idle: "display_next_level_val
                (s\<lparr>uartTxMode := UART_CSVINIT, uart_rx := [],
                   uart_tx := uart_tx (render_level ?s3)\<rparr>) =
              s\<lparr>uartTxMode := UART_CSVINIT, uart_rx := [], uart_tx := uart_tx (render_level ?s3)\<rparr>"
    using fl by (intro display_next_idle) simp_all
  have "render_cycles (Suc 3) s = display_cur_liquid_level ?s3"
    by (simp only: render_cycles_snoc r3 sum.case)
  moreover have "Suc 3 = 4" by simp
  ultimately have "render_cycles 4 s = display_cur_liquid_level ?s3" by (simp only:)
  then have "render_cycles 4 s =
      Inr (s\<lparr>uartTxMode := UART_CSVINIT, uart_rx := [], uart_tx := uart_tx (render_level ?s3)\<rparr>)"
    by (simp only: d4 rc shape idle)
  then show ?thesis by blast
qed

text \<open>
  C3, as amended. With the line buffer clear and no sample or reset request pending, the
  line \<open>csv\<close> closed by one terminator (CR or LF), read one byte per render cycle, leaves
  the mode at CSV-INIT after its four cycles; from there the first render cycle emits
  exactly the CSV header row and moves to CSV, and each later cycle without input emits
  exactly one CSV data row, the mode staying CSV. The state \<open>s\<close> is arbitrary, so the
  same holds each time \<open>csv\<close> is sent again.
\<close>

theorem csv_session:
  assumes clear: "line_buffer s []"
    and fl: "storeSampleFlag s = FALSE" "resetSampleFlag s = FALSE"
    and rx: "uart_rx s = ''csv'' @ [t]" and t: "t = CR \<or> t = LF"
  shows "\<exists>out. render_cycles 4 s =
                 Inr (s\<lparr>uartTxMode := UART_CSVINIT, uart_rx := [], uart_tx := out\<rparr>) \<and>
               (\<forall>n. render_cycles (Suc n)
                       (s\<lparr>uartTxMode := UART_CSVINIT, uart_rx := [], uart_tx := out\<rparr>) =
                     Inr (s\<lparr>uartTxMode := UART_CSV, uart_rx := [],
                            uart_tx := out @ csv_header @ concat (replicate n (csv_row s))\<rparr>))"
proof -
  from csv_command [OF assms] obtain out where
    r4: "render_cycles 4 s = Inr (s\<lparr>uartTxMode := UART_CSVINIT, uart_rx := [], uart_tx := out\<rparr>)"
    by blast
  let ?s4 = "s\<lparr>uartTxMode := UART_CSVINIT, uart_rx := [], uart_tx := out\<rparr>"
  let ?s5 = "?s4\<lparr>uartTxMode := UART_CSV, uart_tx := uart_tx ?s4 @ csv_header\<rparr>"
  have d5: "display_cur_liquid_level ?s4 = Inr ?s5"
    using fl by (intro csvinit_cycle) simp_all
  have rows: "render_cycles n ?s5 =
                Inr (?s5\<lparr>uart_tx := uart_tx ?s5 @ concat (replicate n (csv_row ?s5))\<rparr>)" for n
    using fl by (intro csv_cycles) simp_all
  have "render_cycles (Suc n) ?s4 =
          Inr (s\<lparr>uartTxMode := UART_CSV, uart_rx := [],
                 uart_tx := out @ csv_header @ concat (replicate n (csv_row s))\<rparr>)" for n
    using d5 rows [of n] by simp
  with r4 show ?thesis by blast
qed

section \<open>A command line, one byte per render cycle\<close>

lemma with_line_c_str:
  assumes "length cmd < RX_BUFFER_SIZE" "NUL \<notin> set cmd"
  shows "c_str (rxBuffer (with_line z cmd)) = cmd"
proof -
  have "line_buffer (with_line z cmd) cmd" using assms(1) by (intro with_line_line_buffer) simp
  then show ?thesis using assms by (rule line_buffer_c_str)
qed

lemma kept_no_NUL: "\<forall>c\<in>set cmd. 48 < (of_char c :: nat) \<Longrightarrow> NUL \<notin> set cmd"
  using terminators_low(3) by auto

lemma render_then_line:
  "(render_level (with_line (z\<lparr>uartTxMode := m, uart_rx := r, uart_tx := out\<rparr>) p))\<lparr>uart_rx := r'\<rparr> =
     with_line (z\<lparr>uartTxMode := uartTxMode (render_level (with_line (z\<lparr>uartTxMode := m, uart_rx := r, uart_tx := out\<rparr>) p)),
                  uart_rx := r',
                  uart_tx := uart_tx (render_level (with_line (z\<lparr>uartTxMode := m, uart_rx := r, uart_tx := out\<rparr>) p))\<rparr>) p"
  by (subst render_level_frame) (simp add: with_line_def)

lemma command_cycles:
  assumes clear: "line_buffer s []"
    and fl: "storeSampleFlag s = FALSE" "resetSampleFlag s = FALSE"
    and rx: "uart_rx s = cmd @ t # rest" and t: "t = CR \<or> t = LF"
    and kept: "\<forall>c\<in>set cmd. 48 < (of_char c :: nat)"
    and len: "length cmd < RX_BUFFER_SIZE"
  shows "\<exists>m out. render_cycles (Suc (length cmd)) s =
           Inr (display_next_level_val
                  (with_line (run_command
                     (with_line (s\<lparr>uartTxMode := m, uart_rx := rest, uart_tx := out\<rparr>) cmd)) []))"
proof -
  have fits: "length ([] :: string) + length cmd \<le> RX_BUFFER_SIZE" using len by simp
  from render_line [OF clear rx kept fits fl] obtain m out where
    r': "render_cycles (length cmd) s =
           Inr (with_line (s\<lparr>uartTxMode := m, uart_rx := t # rest, uart_tx := out\<rparr>) ([] @ cmd))"
    by blast
  let ?sk = "with_line (s\<lparr>uartTxMode := m, uart_rx := t # rest, uart_tx := out\<rparr>) cmd"
  have r: "render_cycles (length cmd) s = Inr ?sk" using r' by (simp only: append_Nil)
  have lbk: "line_buffer ?sk cmd" using len by (intro with_line_line_buffer) simp
  have rxk: "uart_rx ?sk = t # rest" by simp
  have d: "display_cur_liquid_level ?sk =
             Inr (display_next_level_val
                    (with_line (run_command ((render_level ?sk)\<lparr>uart_rx := rest\<rparr>)) []))"
    by (rule display_terminator [OF lbk len kept_no_NUL [OF kept] rxk t])
  have "render_cycles (Suc (length cmd)) s = display_cur_liquid_level ?sk"
    by (simp only: render_cycles_snoc r sum.case)
  then have "render_cycles (Suc (length cmd)) s =
          Inr (display_next_level_val
                 (with_line (run_command
                    (with_line (s\<lparr>uartTxMode := uartTxMode (render_level ?sk), uart_rx := rest,
                                  uart_tx := uart_tx (render_level ?sk)\<rparr>) cmd)) []))"
    by (simp only: d render_then_line)
  then show ?thesis by blast
qed

lemma with_line_clear:
  "line_buffer s [] \<Longrightarrow>
   with_line ((with_line (s\<lparr>uartTxMode := m, uart_rx := r, uart_tx := out\<rparr>) p)
                \<lparr>uartTxMode := m'\<rparr>) [] = s\<lparr>uartTxMode := m', uart_rx := r, uart_tx := out\<rparr>"
proof -
  assume lb: "line_buffer s []"
  have b: "bufferIndex s = 0" "rxBuffer s = replicate RX_BUFFER_SIZE NUL"
    using lb bufferIndex_of_line [OF lb] by (simp_all add: line_buffer_def)
  show ?thesis by (rule lls_state.equality) (simp_all add: with_line_def b)
qed

section \<open>C8: the sample cursor\<close>

lemma bump_index:
  assumes "unat (x :: 16 word) \<le> 19"
  shows "(if NUM_SAMPLES \<le> x + 1 then NUM_SAMPLES - 1 else x + 1) = of_nat (min 19 (unat x + 1))"
proof -
  have u: "unat (x + 1) = unat x + 1" using assms by (simp add: unat_word_ariths)
  have le: "NUM_SAMPLES \<le> x + 1 \<longleftrightarrow> 20 \<le> unat x + 1"
    by (simp add: word_le_nat_alt u NUM_SAMPLES_def)
  have x1: "x + 1 = of_nat (unat x + 1)" by simp
  show ?thesis
  proof (cases "20 \<le> unat x + 1")
    case True
    then show ?thesis using le by (simp add: NUM_SAMPLES_def)
  next
    case False
    then have "min 19 (unat x + 1) = unat x + 1" by simp
    then show ?thesis using le False x1 by (simp only: if_False)
  qed
qed

lemma unat_cursor: "n \<le> 19 \<Longrightarrow> unat (of_nat n :: 16 word) = n"
  by (simp add: unat_of_nat)

lemma cursor_below: "sampleIndex s < NUM_SAMPLES \<longleftrightarrow> unat (sampleIndex s) \<le> 19"
  by (simp add: word_less_nat_alt NUM_SAMPLES_def) arith

lemma sample_row_frame [simp]:
  "sample_row (s\<lparr>uartTxMode := m\<rparr>) = sample_row s"
  "sample_row (s\<lparr>uart_tx := out\<rparr>) = sample_row s"
  by (simp_all add: sample_row_def)

lemma display_next_store:
  assumes "storeSampleFlag s = TRUE" "resetSampleFlag s = FALSE" "unat (sampleIndex s) \<le> 19"
  shows "display_next_level_val s =
           s\<lparr>uartTxMode := UART_NONE,
             uart_tx := uart_tx s @ (if sampleIndex s = 0 then sample_header else []) @ sample_row s,
             sampleIndex := of_nat (min 19 (unat (sampleIndex s) + 1)),
             storeSampleFlag := FALSE\<rparr>"
proof -
  have "display_next_level_val s =
           s\<lparr>uartTxMode := UART_NONE,
             uart_tx := uart_tx s @ (if sampleIndex s = 0 then sample_header else []) @ sample_row s,
             sampleIndex := (if NUM_SAMPLES \<le> sampleIndex s + 1 then NUM_SAMPLES - 1
                             else sampleIndex s + 1),
             storeSampleFlag := FALSE\<rparr>"
    using assms(1,2) by (simp add: display_next_level_val_def Let_def uart_put_def)
  then show ?thesis by (simp only: bump_index [OF assms(3)])
qed

lemma display_next_reset:
  assumes "resetSampleFlag s = TRUE"
  shows "sampleIndex (display_next_level_val s) = 0 \<and>
         storeSampleFlag (display_next_level_val s) = FALSE \<and>
         resetSampleFlag (display_next_level_val s) = FALSE"
  using assms by (simp add: display_next_level_val_def Let_def uart_put_def)

lemma display_next_reset_only:
  assumes "resetSampleFlag s = TRUE" "storeSampleFlag s = FALSE"
  shows "display_next_level_val s =
           s\<lparr>sampleIndex := 0, uart_tx := uart_tx s @ ''Reset Test Level'' @ [CR, LF],
             resetSampleFlag := FALSE\<rparr>"
  using assms by (simp add: display_next_level_val_def Let_def uart_put_def)

lemma display_next_cursor:
  assumes "sampleIndex s < NUM_SAMPLES"
  shows "sampleIndex (display_next_level_val s) < NUM_SAMPLES"
proof -
  have z: "(0 :: 16 word) < NUM_SAMPLES" "NUM_SAMPLES - 1 < NUM_SAMPLES"
    by (simp_all add: NUM_SAMPLES_def)
  show ?thesis using assms z
    by (auto simp add: display_next_level_val_def Let_def uart_put_def not_le)
qed

lemma run_command_empty:
  "c_str (rxBuffer z) = [] \<Longrightarrow>
   run_command z = z\<lparr>storeSampleFlag := TRUE, uartTxMode := UART_NONE\<rparr>"
  by (simp add: run_command_def Let_def)

lemma run_command_reset:
  "c_str (rxBuffer z) = ''reset'' \<Longrightarrow>
   run_command z = z\<lparr>resetSampleFlag := TRUE, uartTxMode := UART_NONE\<rparr>"
  by (simp add: run_command_def Let_def)

lemma empty_line_cycle:
  assumes clear: "line_buffer s []"
    and fl: "storeSampleFlag s = FALSE" "resetSampleFlag s = FALSE"
    and rx: "uart_rx s = t # rest" and t: "t = CR \<or> t = LF"
    and idx: "unat (sampleIndex s) \<le> 19"
  shows "\<exists>out. display_cur_liquid_level s =
           Inr (s\<lparr>uartTxMode := UART_NONE, uart_rx := rest, uart_tx := out,
                  sampleIndex := of_nat (min 19 (unat (sampleIndex s) + 1))\<rparr>)"
proof -
  have rx': "uart_rx s = [] @ t # rest" using rx by simp
  have kept: "\<forall>c\<in>set ([] :: string). 48 < (of_char c :: nat)" by simp
  have len: "length ([] :: string) < RX_BUFFER_SIZE" by (simp add: RX_BUFFER_SIZE_def)
  from command_cycles [OF clear fl rx' t kept len] obtain m out where
    r: "render_cycles (Suc (length ([] :: string))) s =
           Inr (display_next_level_val
                  (with_line (run_command
                     (with_line (s\<lparr>uartTxMode := m, uart_rx := rest, uart_tx := out\<rparr>) [])) []))"
    by blast
  let ?z0 = "with_line (s\<lparr>uartTxMode := m, uart_rx := rest, uart_tx := out\<rparr>) []"
  let ?z1 = "s\<lparr>uartTxMode := UART_NONE, uart_rx := rest, uart_tx := out, storeSampleFlag := TRUE\<rparr>"
  have b: "bufferIndex s = 0" "rxBuffer s = replicate RX_BUFFER_SIZE NUL"
    using clear bufferIndex_of_line [OF clear] by (simp_all add: line_buffer_def)
  have cs: "c_str (rxBuffer ?z0) = []"
    by (rule with_line_c_str [OF len]) simp
  have rc: "run_command ?z0 = ?z0\<lparr>storeSampleFlag := TRUE, uartTxMode := UART_NONE\<rparr>"
    by (rule run_command_empty [OF cs])
  have shape: "with_line (?z0\<lparr>storeSampleFlag := TRUE, uartTxMode := UART_NONE\<rparr>) [] = ?z1"
    by (rule lls_state.equality) (simp_all add: with_line_def b)
  have st: "display_next_level_val ?z1 =
           ?z1\<lparr>uartTxMode := UART_NONE,
             uart_tx := uart_tx ?z1 @ (if sampleIndex ?z1 = 0 then sample_header else []) @ sample_row ?z1,
             sampleIndex := of_nat (min 19 (unat (sampleIndex ?z1) + 1)),
             storeSampleFlag := FALSE\<rparr>"
    using fl idx by (intro display_next_store) simp_all
  have fin: "?z1\<lparr>uartTxMode := UART_NONE,
             uart_tx := uart_tx ?z1 @ (if sampleIndex ?z1 = 0 then sample_header else []) @ sample_row ?z1,
             sampleIndex := of_nat (min 19 (unat (sampleIndex ?z1) + 1)),
             storeSampleFlag := FALSE\<rparr> =
           s\<lparr>uartTxMode := UART_NONE, uart_rx := rest,
             uart_tx := out @ (if sampleIndex s = 0 then sample_header else []) @ sample_row ?z1,
             sampleIndex := of_nat (min 19 (unat (sampleIndex s) + 1))\<rparr>"
    using fl by (intro lls_state.equality) simp_all
  have one: "render_cycles (Suc (length ([] :: string))) s = display_cur_liquid_level s"
    by (cases "display_cur_liquid_level s") simp_all
  have "display_cur_liquid_level s = Inr (s\<lparr>uartTxMode := UART_NONE, uart_rx := rest,
             uart_tx := out @ (if sampleIndex s = 0 then sample_header else []) @ sample_row ?z1,
             sampleIndex := of_nat (min 19 (unat (sampleIndex s) + 1))\<rparr>)"
    using r by (simp only: one rc shape st fin)
  then show ?thesis by blast
qed

lemma empty_line_cycles:
  assumes "line_buffer s []" "storeSampleFlag s = FALSE" "resetSampleFlag s = FALSE"
    "unat (sampleIndex s) \<le> 19" "uart_rx s = ts @ rest" "set ts \<subseteq> {CR, LF}"
  shows "\<exists>out. render_cycles (length ts) s =
           Inr (s\<lparr>uartTxMode := (if ts = [] then uartTxMode s else UART_NONE),
                  uart_rx := rest, uart_tx := out,
                  sampleIndex := of_nat (min 19 (unat (sampleIndex s) + length ts))\<rparr>)"
  using assms
proof (induction ts arbitrary: s)
  case Nil
  have "min 19 (unat (sampleIndex s)) = unat (sampleIndex s)" using Nil.prems(4) by simp
  then have "s = s\<lparr>uartTxMode := uartTxMode s, uart_rx := rest, uart_tx := uart_tx s,
                  sampleIndex := of_nat (min 19 (unat (sampleIndex s) + length ([] :: string)))\<rparr>"
    using Nil.prems(5) by (intro lls_state.equality) simp_all
  then have "render_cycles (length ([] :: string)) s =
           Inr (s\<lparr>uartTxMode := (if ([] :: string) = [] then uartTxMode s else UART_NONE),
                  uart_rx := rest, uart_tx := uart_tx s,
                  sampleIndex := of_nat (min 19 (unat (sampleIndex s) + length ([] :: string)))\<rparr>)"
    by simp
  then show ?case by blast
next
  case (Cons t ts)
  from Cons.prems(6) have t: "t = CR \<or> t = LF" and ts: "set ts \<subseteq> {CR, LF}" by auto
  have rx: "uart_rx s = t # (ts @ rest)" using Cons.prems(5) by simp
  define k where "k = min 19 (unat (sampleIndex s) + 1)"
  have k19: "k \<le> 19" by (simp add: k_def)
  from empty_line_cycle [OF Cons.prems(1,2,3) rx t Cons.prems(4)] obtain out1 where
    d: "display_cur_liquid_level s =
           Inr (s\<lparr>uartTxMode := UART_NONE, uart_rx := ts @ rest, uart_tx := out1,
                  sampleIndex := of_nat k\<rparr>)"
    unfolding k_def by blast
  let ?s1 = "s\<lparr>uartTxMode := UART_NONE, uart_rx := ts @ rest, uart_tx := out1,
                  sampleIndex := of_nat k\<rparr>"
  have lb1: "line_buffer ?s1 []" using Cons.prems(1) by (simp add: line_buffer_def)
  have fl1: "storeSampleFlag ?s1 = FALSE" "resetSampleFlag ?s1 = FALSE"
    using Cons.prems(2,3) by simp_all
  have ix1: "unat (sampleIndex ?s1) = k"
    using unat_cursor [OF k19] by simp
  have ix1': "unat (sampleIndex ?s1) \<le> 19" unfolding ix1 by (rule k19)
  have rx1: "uart_rx ?s1 = ts @ rest" by simp
  from Cons.IH [OF lb1 fl1 ix1' rx1 ts] obtain out where
    r: "render_cycles (length ts) ?s1 =
           Inr (?s1\<lparr>uartTxMode := (if ts = [] then uartTxMode ?s1 else UART_NONE),
                  uart_rx := rest, uart_tx := out,
                  sampleIndex := of_nat (min 19 (unat (sampleIndex ?s1) + length ts))\<rparr>)"
    by blast
  define k' where "k' = min 19 (unat (sampleIndex s) + length (t # ts))"
  have ar: "min 19 (k + length ts) = k'" by (simp add: k_def k'_def)
  have fin: "?s1\<lparr>uartTxMode := (if ts = [] then uartTxMode ?s1 else UART_NONE),
                  uart_rx := rest, uart_tx := out,
                  sampleIndex := of_nat (min 19 (unat (sampleIndex ?s1) + length ts))\<rparr> =
             s\<lparr>uartTxMode := (if t # ts = [] then uartTxMode s else UART_NONE),
                  uart_rx := rest, uart_tx := out,
                  sampleIndex := of_nat k'\<rparr>"
    unfolding ix1 ar by (intro lls_state.equality) simp_all
  have "render_cycles (length (t # ts)) s = render_cycles (length ts) ?s1"
    using d by simp
  then have "render_cycles (length (t # ts)) s =
             Inr (s\<lparr>uartTxMode := (if t # ts = [] then uartTxMode s else UART_NONE),
                  uart_rx := rest, uart_tx := out,
                  sampleIndex := of_nat (min 19 (unat (sampleIndex s) + length (t # ts)))\<rparr>)"
    by (simp only: r fin k'_def)
  then show ?case by blast
qed

lemma reset_command_cycles:
  assumes clear: "line_buffer s []"
    and fl: "storeSampleFlag s = FALSE" "resetSampleFlag s = FALSE"
    and rx: "uart_rx s = ''reset'' @ t # rest" and t: "t = CR \<or> t = LF"
  shows "\<exists>out. render_cycles 6 s =
           Inr (s\<lparr>uartTxMode := UART_NONE, uart_rx := rest, uart_tx := out, sampleIndex := 0\<rparr>)"
proof -
  have kept: "\<forall>c\<in>set ''reset''. 48 < (of_char c :: nat)" by simp
  have len: "length ''reset'' < RX_BUFFER_SIZE" by (simp add: RX_BUFFER_SIZE_def)
  from command_cycles [OF clear fl rx t kept len] obtain m out where
    r: "render_cycles (Suc (length ''reset'')) s =
           Inr (display_next_level_val
                  (with_line (run_command
                     (with_line (s\<lparr>uartTxMode := m, uart_rx := rest, uart_tx := out\<rparr>) ''reset'')) []))"
    by blast
  let ?z0 = "with_line (s\<lparr>uartTxMode := m, uart_rx := rest, uart_tx := out\<rparr>) ''reset''"
  let ?z1 = "s\<lparr>uartTxMode := UART_NONE, uart_rx := rest, uart_tx := out, resetSampleFlag := TRUE\<rparr>"
  have b: "bufferIndex s = 0" "rxBuffer s = replicate RX_BUFFER_SIZE NUL"
    using clear bufferIndex_of_line [OF clear] by (simp_all add: line_buffer_def)
  have cs: "c_str (rxBuffer ?z0) = ''reset''"
    by (rule with_line_c_str [OF len]) (simp add: NUL_def)
  have rc: "run_command ?z0 = ?z0\<lparr>resetSampleFlag := TRUE, uartTxMode := UART_NONE\<rparr>"
    by (rule run_command_reset [OF cs])
  have shape: "with_line (?z0\<lparr>resetSampleFlag := TRUE, uartTxMode := UART_NONE\<rparr>) [] = ?z1"
    by (rule lls_state.equality) (simp_all add: with_line_def b)
  have st: "display_next_level_val ?z1 =
           ?z1\<lparr>sampleIndex := 0, uart_tx := uart_tx ?z1 @ ''Reset Test Level'' @ [CR, LF],
             resetSampleFlag := FALSE\<rparr>"
    using fl by (intro display_next_reset_only) simp_all
  have fin: "?z1\<lparr>sampleIndex := 0, uart_tx := uart_tx ?z1 @ ''Reset Test Level'' @ [CR, LF],
             resetSampleFlag := FALSE\<rparr> =
           s\<lparr>uartTxMode := UART_NONE, uart_rx := rest,
             uart_tx := out @ ''Reset Test Level'' @ [CR, LF], sampleIndex := 0\<rparr>"
    using fl by (intro lls_state.equality) simp_all
  have n: "Suc (length ''reset'') = 6" by simp
  have "render_cycles 6 s = Inr (s\<lparr>uartTxMode := UART_NONE, uart_rx := rest,
             uart_tx := out @ ''Reset Test Level'' @ [CR, LF], sampleIndex := 0\<rparr>)"
    using r by (simp only: n rc shape st fin)
  then show ?thesis by blast
qed

text \<open>
  C8. With the line buffer clear, no request pending and the cursor within
  \<open>[0, NUM_SAMPLES - 1]\<close>: twenty empty lines, one per render cycle, leave the cursor
  at \<open>NUM_SAMPLES - 1 = 19\<close>; the line \<open>reset\<close> puts it back to 0 with both one-shot
  flags clear; \<open>display_next_level_val\<close> keeps the cursor below \<open>NUM_SAMPLES\<close>; and a
  pending reset request always ends with cursor 0 and both flags clear.
\<close>

theorem sample_cursor:
  assumes clear: "line_buffer s []"
    and fl: "storeSampleFlag s = FALSE" "resetSampleFlag s = FALSE"
    and idx: "sampleIndex s < NUM_SAMPLES" and t: "t = CR \<or> t = LF"
  shows "(\<exists>out. render_cycles 20 (s\<lparr>uart_rx := replicate 20 t\<rparr>) =
            Inr (s\<lparr>uartTxMode := UART_NONE, uart_rx := [], uart_tx := out,
                   sampleIndex := NUM_SAMPLES - 1\<rparr>)) \<and>
         (\<exists>out. render_cycles 6 (s\<lparr>uart_rx := ''reset'' @ [t]\<rparr>) =
            Inr (s\<lparr>uartTxMode := UART_NONE, uart_rx := [], uart_tx := out, sampleIndex := 0\<rparr>)) \<and>
         (\<forall>z. sampleIndex z < NUM_SAMPLES \<longrightarrow>
              sampleIndex (display_next_level_val z) < NUM_SAMPLES) \<and>
         (\<forall>z. resetSampleFlag z = TRUE \<longrightarrow>
              sampleIndex (display_next_level_val z) = 0 \<and>
              storeSampleFlag (display_next_level_val z) = FALSE \<and>
              resetSampleFlag (display_next_level_val z) = FALSE)"
proof (intro conjI allI impI)
  let ?s = "s\<lparr>uart_rx := replicate 20 t\<rparr>"
  have lb: "line_buffer ?s []" using clear by (simp add: line_buffer_def)
  have ix: "unat (sampleIndex ?s) \<le> 19" using idx by (simp add: cursor_below)
  have rx: "uart_rx ?s = replicate 20 t @ []" by simp
  have ts: "set (replicate 20 t) \<subseteq> {CR, LF}" using t by auto
  have fls: "storeSampleFlag ?s = FALSE" "resetSampleFlag ?s = FALSE" using fl by simp_all
  from empty_line_cycles [OF lb fls ix rx ts] obtain out where
    r: "render_cycles (length (replicate 20 t)) ?s =
           Inr (?s\<lparr>uartTxMode := (if replicate 20 t = [] then uartTxMode ?s else UART_NONE),
                  uart_rx := [], uart_tx := out,
                  sampleIndex := of_nat (min 19 (unat (sampleIndex ?s) + length (replicate 20 t)))\<rparr>)"
    by blast
  have l: "length (replicate 20 t) = 20" by simp
  have ne: "replicate 20 t \<noteq> []" by simp
  have m: "min 19 (unat (sampleIndex ?s) + 20) = 19" by simp
  have fin: "?s\<lparr>uartTxMode := UART_NONE, uart_rx := [], uart_tx := out,
                 sampleIndex := of_nat 19\<rparr> =
             s\<lparr>uartTxMode := UART_NONE, uart_rx := [], uart_tx := out,
                   sampleIndex := NUM_SAMPLES - 1\<rparr>"
    by (intro lls_state.equality) (simp_all add: NUM_SAMPLES_def)
  have "render_cycles 20 ?s = Inr (s\<lparr>uartTxMode := UART_NONE, uart_rx := [], uart_tx := out,
                   sampleIndex := NUM_SAMPLES - 1\<rparr>)"
    using r ne by (simp only: l m if_False fin)
  then show "\<exists>out. render_cycles 20 ?s =
            Inr (s\<lparr>uartTxMode := UART_NONE, uart_rx := [], uart_tx := out,
                   sampleIndex := NUM_SAMPLES - 1\<rparr>)" by blast
next
  let ?s = "s\<lparr>uart_rx := ''reset'' @ [t]\<rparr>"
  have lb: "line_buffer ?s []" using clear by (simp add: line_buffer_def)
  have rx: "uart_rx ?s = ''reset'' @ t # []" by simp
  have fls: "storeSampleFlag ?s = FALSE" "resetSampleFlag ?s = FALSE" using fl by simp_all
  from reset_command_cycles [OF lb fls rx t] obtain out where
    "render_cycles 6 ?s =
       Inr (?s\<lparr>uartTxMode := UART_NONE, uart_rx := [], uart_tx := out, sampleIndex := 0\<rparr>)"
    by blast
  then have "render_cycles 6 ?s =
       Inr (s\<lparr>uartTxMode := UART_NONE, uart_rx := [], uart_tx := out, sampleIndex := 0\<rparr>)"
    by simp
  then show "\<exists>out. render_cycles 6 ?s =
       Inr (s\<lparr>uartTxMode := UART_NONE, uart_rx := [], uart_tx := out, sampleIndex := 0\<rparr>)"
    by blast
next
  fix z :: lls_state assume "sampleIndex z < NUM_SAMPLES"
  then show "sampleIndex (display_next_level_val z) < NUM_SAMPLES" by (rule display_next_cursor)
next
  fix z :: lls_state assume r: "resetSampleFlag z = TRUE"
  show "sampleIndex (display_next_level_val z) = 0" using display_next_reset [OF r] by simp
  show "storeSampleFlag (display_next_level_val z) = FALSE" using display_next_reset [OF r] by simp
  show "resetSampleFlag (display_next_level_val z) = FALSE" using display_next_reset [OF r] by simp
qed

section \<open>Instances from the initial state\<close>

lemma init_clear: "line_buffer init_state []"
  by (simp add: line_buffer_def init_state_def)

lemma init_flags:
  "storeSampleFlag init_state = FALSE" "resetSampleFlag init_state = FALSE"
  "sampleIndex init_state < NUM_SAMPLES"
  by (simp_all add: init_state_def NUM_SAMPLES_def)

theorem sample_cursor_witness:
  "line_buffer init_state [] \<and> sampleIndex init_state < NUM_SAMPLES \<and>
   (\<exists>out. render_cycles 20 (init_state\<lparr>uart_rx := replicate 20 CR\<rparr>) =
            Inr (init_state\<lparr>uartTxMode := UART_NONE, uart_rx := [], uart_tx := out,
                   sampleIndex := NUM_SAMPLES - 1\<rparr>)) \<and>
   (\<exists>out. render_cycles 6 (init_state\<lparr>uart_rx := ''reset'' @ [CR]\<rparr>) =
            Inr (init_state\<lparr>uartTxMode := UART_NONE, uart_rx := [], uart_tx := out,
                   sampleIndex := 0\<rparr>))"
proof -
  have t: "CR = CR \<or> CR = LF" by simp
  from sample_cursor [OF init_clear init_flags t]
  have "(\<exists>out. render_cycles 20 (init_state\<lparr>uart_rx := replicate 20 CR\<rparr>) =
            Inr (init_state\<lparr>uartTxMode := UART_NONE, uart_rx := [], uart_tx := out,
                   sampleIndex := NUM_SAMPLES - 1\<rparr>))"
   and "(\<exists>out. render_cycles 6 (init_state\<lparr>uart_rx := ''reset'' @ [CR]\<rparr>) =
            Inr (init_state\<lparr>uartTxMode := UART_NONE, uart_rx := [], uart_tx := out,
                   sampleIndex := 0\<rparr>))"
    by blast+
  with init_clear init_flags(3) show ?thesis by blast
qed

theorem csv_session_witness:
  "line_buffer (init_state\<lparr>uart_rx := ''csv'' @ [CR]\<rparr>) [] \<and>
   (\<exists>out. render_cycles 4 (init_state\<lparr>uart_rx := ''csv'' @ [CR]\<rparr>) =
            Inr (init_state\<lparr>uart_rx := ''csv'' @ [CR], uartTxMode := UART_CSVINIT, uart_rx := [],
                            uart_tx := out\<rparr>) \<and>
          render_cycles 3 (init_state\<lparr>uart_rx := ''csv'' @ [CR], uartTxMode := UART_CSVINIT,
                                      uart_rx := [], uart_tx := out\<rparr>) =
            Inr (init_state\<lparr>uart_rx := ''csv'' @ [CR], uartTxMode := UART_CSV, uart_rx := [],
                   uart_tx := out @ csv_header @
                              concat (replicate 2 (csv_row (init_state\<lparr>uart_rx := ''csv'' @ [CR]\<rparr>)))\<rparr>))"
proof -
  let ?s = "init_state\<lparr>uart_rx := ''csv'' @ [CR]\<rparr>"
  have lb: "line_buffer ?s []" using init_clear by (simp add: line_buffer_def)
  have fl: "storeSampleFlag ?s = FALSE" "resetSampleFlag ?s = FALSE" using init_flags by simp_all
  have rx: "uart_rx ?s = ''csv'' @ [CR]" by simp
  have t: "CR = CR \<or> CR = LF" by simp
  from csv_session [OF lb fl rx t] obtain out where
    a: "render_cycles 4 ?s = Inr (?s\<lparr>uartTxMode := UART_CSVINIT, uart_rx := [], uart_tx := out\<rparr>)"
    and b: "\<forall>n. render_cycles (Suc n) (?s\<lparr>uartTxMode := UART_CSVINIT, uart_rx := [], uart_tx := out\<rparr>) =
                Inr (?s\<lparr>uartTxMode := UART_CSV, uart_rx := [],
                       uart_tx := out @ csv_header @ concat (replicate n (csv_row ?s))\<rparr>)"
    by blast
  have three: "Suc 2 = 3" by simp
  from b have "render_cycles (Suc 2) (?s\<lparr>uartTxMode := UART_CSVINIT, uart_rx := [], uart_tx := out\<rparr>) =
                Inr (?s\<lparr>uartTxMode := UART_CSV, uart_rx := [],
                       uart_tx := out @ csv_header @ concat (replicate 2 (csv_row ?s))\<rparr>)"
    by (rule spec)
  then have c: "render_cycles 3 (?s\<lparr>uartTxMode := UART_CSVINIT, uart_rx := [], uart_tx := out\<rparr>) =
                Inr (?s\<lparr>uartTxMode := UART_CSV, uart_rx := [],
                       uart_tx := out @ csv_header @ concat (replicate 2 (csv_row ?s))\<rparr>)"
    by (simp only: three)
  from lb a c show ?thesis by blast
qed

text \<open>
  The claim as stated feeds \<open>csv\<close>, CR, LF. The LF is a second terminator: it is read in
  the cycle that renders the header and is taken as an empty line, which requests a
  sample and sets the mode to NONE. After the five cycles one CSV header, one sample
  header and one sample row have been sent, and further cycles send nothing: no CSV
  data row follows.
\<close>

theorem csv_session_counterexample:
  "(let s5 = init_state\<lparr>uartTxMode := UART_NONE, sampleIndex := 1,
                uart_tx := basic_line init_state @ ''c'' @ basic_line init_state @ ''s'' @
                           basic_line init_state @ ''v'' @ basic_line init_state @
                           csv_header @ sample_header @ sample_row init_state\<rparr>
    in render_cycles 5 (init_state\<lparr>uart_rx := ''csv'' @ [CR, LF]\<rparr>) = Inr s5 \<and>
       render_cycles 2 s5 = Inr s5)"
  by code_simp

section \<open>The loops of a completed scan in closed form\<close>

lemma fold_upt_Suc: "fold f [0..<Suc n] s = f n (fold f [0..<n] s)"
  by simp

lemma upd_prefix:
  assumes "length ys = n" "n < length xs"
  shows "(ys @ drop n xs)[n := v] = (ys @ [v]) @ drop (Suc n) xs"
proof -
  have "drop n xs = xs ! n # drop (Suc n) xs" using assms(2) by (simp add: Cons_nth_drop_Suc)
  then show ?thesis using assms(1) by (simp add: list_update_append)
qed

lemma nth_prefix:
  assumes "length ys = n" "n < length xs"
  shows "(ys @ drop n xs) ! n = xs ! n"
  using assms by (simp add: nth_append)

lemma read_raw_loop:
  assumes "n \<le> length (sensorRaw s)" "n \<le> length (sensorDiff s)"
  shows "fold (read_raw e) [0..<n] s =
           s\<lparr>sensorRaw := map (\<lambda>j. ucast (raw_counts e j)) [0..<n] @ drop n (sensorRaw s),
             sensorDiff := map (\<lambda>j. ucast (raw_counts e j)) [0..<n] @ drop n (sensorDiff s)\<rparr>"
  using assms
proof (induction n)
  case 0
  show ?case by simp
next
  case (Suc n)
  let ?f = "\<lambda>j. (ucast (raw_counts e j) :: 32 word)"
  have l: "length (map ?f [0..<n]) = n" by simp
  from Suc.prems have lt: "n < length (sensorRaw s)" "n < length (sensorDiff s)" by simp_all
  have ih: "fold (read_raw e) [0..<n] s =
           s\<lparr>sensorRaw := map ?f [0..<n] @ drop n (sensorRaw s),
             sensorDiff := map ?f [0..<n] @ drop n (sensorDiff s)\<rparr>"
    using Suc.prems by (intro Suc.IH) simp_all
  have m: "map ?f [0..<Suc n] = map ?f [0..<n] @ [?f n]" by simp
  have nr: "(map ?f [0..<n] @ [?f n] @ drop (Suc n) (sensorRaw s)) ! n = ?f n"
    by (simp add: nth_append)
  show ?case
    unfolding fold_upt_Suc ih m
    using nr by (simp add: read_raw_def Let_def upd_prefix [OF l lt(1)] upd_prefix [OF l lt(2)])
qed

lemma copy_offsets_loop:
  assumes "n \<le> length (sensorEmptyOffset s)"
  shows "fold (\<lambda>i t. t\<lparr>sensorEmptyOffset := (sensorEmptyOffset t)[i := sensorDiff t ! i]\<rparr>)
              [0..<n] s =
           s\<lparr>sensorEmptyOffset := map (\<lambda>j. sensorDiff s ! j) [0..<n] @ drop n (sensorEmptyOffset s)\<rparr>"
  using assms
proof (induction n)
  case 0
  show ?case by simp
next
  case (Suc n)
  let ?f = "\<lambda>j. sensorDiff s ! j"
  have l: "length (map ?f [0..<n]) = n" by simp
  from Suc.prems have lt: "n < length (sensorEmptyOffset s)" by simp
  have ih: "fold (\<lambda>i t. t\<lparr>sensorEmptyOffset := (sensorEmptyOffset t)[i := sensorDiff t ! i]\<rparr>)
              [0..<n] s =
           s\<lparr>sensorEmptyOffset := map ?f [0..<n] @ drop n (sensorEmptyOffset s)\<rparr>"
    using Suc.prems by (intro Suc.IH) simp
  have m: "map ?f [0..<Suc n] = map ?f [0..<n] @ [?f n]" by simp
  show ?case
    unfolding fold_upt_Suc ih m by (simp add: upd_prefix [OF l lt])
qed

lemma slot_weight_step:
  "(if sint (sensorLimits ! i) sdiv 2 < sint p
    then (if i = 0 \<or> i = NUMSENSORS - 1 then (a :: 8 word) + 1 else a + 2) else a) =
   a + of_nat (slot_weight i p)"
  by (simp add: slot_weight_def)

lemma process_sensor_step:
  "process_sensor i s =
     s\<lparr>sensorDiff := (sensorDiff s)[i := slot_diff s i],
       sensorProcessed := (sensorProcessed s)[i := slot_processed s i],
       sensorActiveCount := sensorActiveCount s + of_nat (slot_weight i (slot_processed s i))\<rparr>"
  by (simp add: process_sensor_def slot_diff_def slot_processed_def slot_weight_def Let_def)

lemma slot_diff_cong:
  "sensorDiff t ! i = sensorDiff s ! i \<Longrightarrow> sensorEmptyOffset t = sensorEmptyOffset s
   \<Longrightarrow> slot_diff t i = slot_diff s i"
  by (simp add: slot_diff_def)

lemma slot_processed_cong:
  "slot_diff t i = slot_diff s i \<Longrightarrow> slot_processed t i = slot_processed s i"
  by (simp add: slot_processed_def)

lemma process_loop:
  assumes "n \<le> length (sensorDiff s)" "n \<le> length (sensorProcessed s)"
  shows "fold process_sensor [0..<n] s =
           s\<lparr>sensorDiff := map (slot_diff s) [0..<n] @ drop n (sensorDiff s),
             sensorProcessed := map (slot_processed s) [0..<n] @ drop n (sensorProcessed s),
             sensorActiveCount :=
               sensorActiveCount s + of_nat (\<Sum>j<n. slot_weight j (slot_processed s j))\<rparr>"
  using assms
proof (induction n)
  case 0
  show ?case by simp
next
  case (Suc n)
  let ?t = "s\<lparr>sensorDiff := map (slot_diff s) [0..<n] @ drop n (sensorDiff s),
             sensorProcessed := map (slot_processed s) [0..<n] @ drop n (sensorProcessed s),
             sensorActiveCount :=
               sensorActiveCount s + of_nat (\<Sum>j<n. slot_weight j (slot_processed s j))\<rparr>"
  have ld: "length (map (slot_diff s) [0..<n]) = n"
    and lp: "length (map (slot_processed s) [0..<n]) = n" by simp_all
  from Suc.prems have lt: "n < length (sensorDiff s)" "n < length (sensorProcessed s)" by simp_all
  have ih: "fold process_sensor [0..<n] s = ?t" using Suc.prems by (intro Suc.IH) simp_all
  have dn: "(map (slot_diff s) [0..<n] @ drop n (sensorDiff s)) ! n = sensorDiff s ! n"
    by (rule nth_prefix [OF ld lt(1)])
  have sd: "slot_diff ?t n = slot_diff s n" by (rule slot_diff_cong) (simp_all add: dn)
  have sp: "slot_processed ?t n = slot_processed s n" by (rule slot_processed_cong [OF sd])
  have "fold process_sensor [0..<Suc n] s = process_sensor n ?t"
    by (simp only: fold_upt_Suc ih)
  also have "\<dots> = ?t\<lparr>sensorDiff := (sensorDiff ?t)[n := slot_diff s n],
                      sensorProcessed := (sensorProcessed ?t)[n := slot_processed s n],
                      sensorActiveCount :=
                        sensorActiveCount ?t + of_nat (slot_weight n (slot_processed s n))\<rparr>"
    by (simp only: process_sensor_step sd sp)
  also have "\<dots> = s\<lparr>sensorDiff := map (slot_diff s) [0..<Suc n] @ drop (Suc n) (sensorDiff s),
             sensorProcessed := map (slot_processed s) [0..<Suc n] @ drop (Suc n) (sensorProcessed s),
             sensorActiveCount :=
               sensorActiveCount s + of_nat (\<Sum>j<Suc n. slot_weight j (slot_processed s j))\<rparr>"
    by (simp add: upd_prefix [OF ld lt(1)] upd_prefix [OF lp lt(2)])
  finally show ?case .
qed

lemma read_all:
  assumes "wf_state s"
  shows "fold (read_raw e) [0..<NUMSENSORS] s =
           s\<lparr>sensorRaw := raw_values e, sensorDiff := raw_values e\<rparr>"
  using assms read_raw_loop [of NUMSENSORS s e]
  by (simp add: wf_state_def raw_values_def)

lemma length_raw_values [simp]: "length (raw_values e) = NUMSENSORS"
  by (simp add: raw_values_def)

lemma nth_raw_values: "i < NUMSENSORS \<Longrightarrow> raw_values e ! i = ucast (raw_counts e i)"
  by (simp add: raw_values_def)

lemma copy_all:
  assumes "length (sensorEmptyOffset s) = LOGICAL_EM_EEPROM_SIZE" "length (sensorDiff s) = NUMSENSORS"
  shows "fold (\<lambda>i t. t\<lparr>sensorEmptyOffset := (sensorEmptyOffset t)[i := sensorDiff t ! i]\<rparr>)
              [0..<NUMSENSORS] s =
           s\<lparr>sensorEmptyOffset := sensorDiff s @ drop NUMSENSORS (sensorEmptyOffset s)\<rparr>"
proof -
  have le: "NUMSENSORS \<le> length (sensorEmptyOffset s)"
    using assms(1) by (simp add: NUMSENSORS_def LOGICAL_EM_EEPROM_SIZE_def)
  have m: "map (\<lambda>j. sensorDiff s ! j) [0..<NUMSENSORS] = sensorDiff s"
    using assms(2) by (metis map_nth)
  show ?thesis using copy_offsets_loop [OF le] by (simp only: m)
qed

lemma store_calibration_ok:
  assumes "length (sensorEmptyOffset s) = LOGICAL_EM_EEPROM_SIZE" "length (sensorDiff s) = NUMSENSORS"
  shows "\<exists>out. store_calibration CY_EM_EEPROM_SUCCESS s =
           Inr (s\<lparr>sensorEmptyOffset := sensorDiff s @ drop NUMSENSORS (sensorEmptyOffset s),
                  uart_tx := out,
                  eeprom_log := eeprom_log s @
                    [(LOGICAL_EM_EEPROM_START,
                      sensorDiff s @ drop NUMSENSORS (sensorEmptyOffset s),
                      LOGICAL_EM_EEPROM_SIZE)]\<rparr>)"
proof -
  let ?n = "sensorDiff s @ drop NUMSENSORS (sensorEmptyOffset s)"
  have "store_calibration CY_EM_EEPROM_SUCCESS s =
           Inr (s\<lparr>sensorEmptyOffset := ?n,
                  uart_tx := uart_tx (display_current_cal_val (s\<lparr>sensorEmptyOffset := ?n\<rparr>)),
                  eeprom_log := eeprom_log s @
                    [(LOGICAL_EM_EEPROM_START, ?n, LOGICAL_EM_EEPROM_SIZE)]\<rparr>)"
    by (simp add: store_calibration_def copy_all [OF assms] Let_def handle_error_def
                  display_current_cal_val_def uart_put_def)
  then show ?thesis by blast
qed

lemma process_all:
  assumes "length (sensorDiff s) = NUMSENSORS" "length (sensorProcessed s) = NUMSENSORS"
  shows "fold process_sensor [0..<NUMSENSORS] (s\<lparr>sensorActiveCount := 0\<rparr>) =
           s\<lparr>sensorDiff := map (slot_diff s) [0..<NUMSENSORS],
             sensorProcessed := map (slot_processed s) [0..<NUMSENSORS],
             sensorActiveCount := of_nat (\<Sum>j<NUMSENSORS. slot_weight j (slot_processed s j))\<rparr>"
proof -
  let ?s0 = "s\<lparr>sensorActiveCount := 0\<rparr>"
  have sd: "slot_diff ?s0 = slot_diff s" by (rule ext) (simp add: slot_diff_def)
  have sp: "slot_processed ?s0 = slot_processed s"
    by (rule ext) (simp add: slot_processed_def sd)
  have "fold process_sensor [0..<NUMSENSORS] ?s0 =
          ?s0\<lparr>sensorDiff := map (slot_diff ?s0) [0..<NUMSENSORS] @ drop NUMSENSORS (sensorDiff ?s0),
             sensorProcessed := map (slot_processed ?s0) [0..<NUMSENSORS] @
                                drop NUMSENSORS (sensorProcessed ?s0),
             sensorActiveCount :=
               sensorActiveCount ?s0 + of_nat (\<Sum>j<NUMSENSORS. slot_weight j (slot_processed ?s0 j))\<rparr>"
    using assms by (intro process_loop) simp_all
  then show ?thesis using assms by (simp add: sd sp)
qed

lemma scan_complete_plain:
  assumes "wf_state s" "process_widgets_ok e" "scan_widgets_ok e" "cal_flag s \<noteq> TRUE"
  shows "scan_complete e s =
           Inr (fold process_sensor [0..<NUMSENSORS]
                  (s\<lparr>sensorRaw := raw_values e, sensorDiff := raw_values e,
                     sensorActiveCount := 0\<rparr>))"
  using assms by (simp add: scan_complete_def read_all Let_def)

lemma scan_complete_cal:
  assumes "wf_state s" "process_widgets_ok e" "scan_widgets_ok e" "cal_flag s = TRUE"
    "eeprom_write_status e = CY_EM_EEPROM_SUCCESS"
  shows "\<exists>out. scan_complete e s =
           Inr (fold process_sensor [0..<NUMSENSORS]
                  (s\<lparr>sensorRaw := raw_values e, sensorDiff := raw_values e, cal_flag := FALSE,
                     sensorEmptyOffset := raw_values e @ drop NUMSENSORS (sensorEmptyOffset s),
                     uart_tx := out,
                     eeprom_log := eeprom_log s @
                       [(LOGICAL_EM_EEPROM_START,
                         raw_values e @ drop NUMSENSORS (sensorEmptyOffset s),
                         LOGICAL_EM_EEPROM_SIZE)],
                     sensorActiveCount := 0\<rparr>))"
proof -
  let ?s1 = "s\<lparr>sensorRaw := raw_values e, sensorDiff := raw_values e, cal_flag := FALSE\<rparr>"
  have l: "length (sensorEmptyOffset ?s1) = LOGICAL_EM_EEPROM_SIZE"
          "length (sensorDiff ?s1) = NUMSENSORS"
    using assms(1) by (simp_all add: wf_state_def)
  from store_calibration_ok [OF l] obtain out where
    sc: "store_calibration CY_EM_EEPROM_SUCCESS ?s1 =
           Inr (?s1\<lparr>sensorEmptyOffset := sensorDiff ?s1 @ drop NUMSENSORS (sensorEmptyOffset ?s1),
                  uart_tx := out,
                  eeprom_log := eeprom_log ?s1 @
                    [(LOGICAL_EM_EEPROM_START,
                      sensorDiff ?s1 @ drop NUMSENSORS (sensorEmptyOffset ?s1),
                      LOGICAL_EM_EEPROM_SIZE)]\<rparr>)"
    by blast
  have "scan_complete e s =
           Inr (fold process_sensor [0..<NUMSENSORS]
                  (s\<lparr>sensorRaw := raw_values e, sensorDiff := raw_values e, cal_flag := FALSE,
                     sensorEmptyOffset := raw_values e @ drop NUMSENSORS (sensorEmptyOffset s),
                     uart_tx := out,
                     eeprom_log := eeprom_log s @
                       [(LOGICAL_EM_EEPROM_START,
                         raw_values e @ drop NUMSENSORS (sensorEmptyOffset s),
                         LOGICAL_EM_EEPROM_SIZE)],
                     sensorActiveCount := 0\<rparr>))"
    using assms sc by (simp add: scan_complete_def read_all Let_def)
  then show ?thesis by blast
qed

lemma weight_sum_bound: "(\<Sum>j<NUMSENSORS. slot_weight j (p j)) \<le> 22"
proof -
  have "(\<Sum>j<NUMSENSORS. slot_weight j (p j)) \<le>
        (\<Sum>j<NUMSENSORS. if j = 0 \<or> j = NUMSENSORS - 1 then 1 else 2)"
    by (rule sum_mono) (simp add: slot_weight_def)
  also have "\<dots> = 22" by (simp add: NUMSENSORS_def lessThan_nat_numeral)
  finally show ?thesis .
qed

lemma unat_count: "k \<le> 22 \<Longrightarrow> unat (of_nat k :: 8 word) = k"
  by (simp add: unat_of_nat)

lemma unat_weight_sum:
  "unat (of_nat (\<Sum>j<NUMSENSORS. slot_weight j (p j)) :: 8 word) =
     (\<Sum>j<NUMSENSORS. slot_weight j (p j))"
  by (rule unat_count [OF weight_sum_bound])

section \<open>One pass of the level pipeline\<close>

lemma calculate_level_fields [simp]:
  "sensorRaw (calculate_level s) = sensorRaw s"
  "sensorDiff (calculate_level s) = sensorDiff s"
  "sensorEmptyOffset (calculate_level s) = sensorEmptyOffset s"
  "sensorProcessed (calculate_level s) = sensorProcessed s"
  "sensorActiveCount (calculate_level s) = sensorActiveCount s"
  "cal_flag (calculate_level s) = cal_flag s"
  "eeprom_log (calculate_level s) = eeprom_log s"
  by (simp_all add: calculate_level_def Let_def)

lemma calculate_level_idem: "calculate_level (calculate_level s) = calculate_level s"
  by (simp add: calculate_level_def Let_def)

lemma calculate_level_zero:
  "sensorActiveCount s = 0 \<Longrightarrow>
   levelMm (calculate_level s) = 0 \<and> levelPercent (calculate_level s) = 0"
  by (simp add: calculate_level_def Let_def level_consts LEVELMM_MAX_def)

text \<open>The state a completed scan hands to the second loop, and what the pass returns.\<close>

lemma pipeline_cycle_result:
  assumes wf: "wf_state s" and ok: "cycle_completes e s"
  shows "\<exists>s2. pipeline_cycle e s =
                Inr (calculate_level
                       (s2\<lparr>sensorDiff := map (slot_diff s2) [0..<NUMSENSORS],
                           sensorProcessed := map (slot_processed s2) [0..<NUMSENSORS],
                           sensorActiveCount :=
                             of_nat (\<Sum>j<NUMSENSORS. slot_weight j (slot_processed s2 j))\<rparr>)) \<and>
              sensorRaw s2 = raw_values e \<and> sensorDiff s2 = raw_values e \<and>
              (if cal_flag s = TRUE
               then cal_flag s2 = FALSE \<and>
                    sensorEmptyOffset s2 = raw_values e @ drop NUMSENSORS (sensorEmptyOffset s) \<and>
                    eeprom_log s2 = eeprom_log s @
                      [(LOGICAL_EM_EEPROM_START, sensorEmptyOffset s2, LOGICAL_EM_EEPROM_SIZE)]
               else cal_flag s2 = cal_flag s \<and> sensorEmptyOffset s2 = sensorEmptyOffset s \<and>
                    eeprom_log s2 = eeprom_log s)"
proof (cases "cal_flag s = TRUE")
  case True
  from ok True have env: "\<not> capsense_busy e" "process_widgets_ok e" "scan_widgets_ok e"
    "eeprom_write_status e = CY_EM_EEPROM_SUCCESS"
    by (auto simp: cycle_completes_def)
  from scan_complete_cal [OF wf env(2,3) True env(4)] obtain out where
    sc: "scan_complete e s =
           Inr (fold process_sensor [0..<NUMSENSORS]
                  (s\<lparr>sensorRaw := raw_values e, sensorDiff := raw_values e, cal_flag := FALSE,
                     sensorEmptyOffset := raw_values e @ drop NUMSENSORS (sensorEmptyOffset s),
                     uart_tx := out,
                     eeprom_log := eeprom_log s @
                       [(LOGICAL_EM_EEPROM_START,
                         raw_values e @ drop NUMSENSORS (sensorEmptyOffset s),
                         LOGICAL_EM_EEPROM_SIZE)],
                     sensorActiveCount := 0\<rparr>))"
    by blast
  let ?s2 = "s\<lparr>sensorRaw := raw_values e, sensorDiff := raw_values e, cal_flag := FALSE,
                     sensorEmptyOffset := raw_values e @ drop NUMSENSORS (sensorEmptyOffset s),
                     uart_tx := out,
                     eeprom_log := eeprom_log s @
                       [(LOGICAL_EM_EEPROM_START,
                         raw_values e @ drop NUMSENSORS (sensorEmptyOffset s),
                         LOGICAL_EM_EEPROM_SIZE)]\<rparr>"
  have l: "length (sensorDiff ?s2) = NUMSENSORS" "length (sensorProcessed ?s2) = NUMSENSORS"
    using wf by (simp_all add: wf_state_def)
  have "pipeline_cycle e s = Inr (calculate_level (fold process_sensor [0..<NUMSENSORS]
                                      (?s2\<lparr>sensorActiveCount := 0\<rparr>)))"
    using env(1) sc by (simp add: pipeline_cycle_def)
  then have "pipeline_cycle e s =
                Inr (calculate_level
                       (?s2\<lparr>sensorDiff := map (slot_diff ?s2) [0..<NUMSENSORS],
                           sensorProcessed := map (slot_processed ?s2) [0..<NUMSENSORS],
                           sensorActiveCount :=
                             of_nat (\<Sum>j<NUMSENSORS. slot_weight j (slot_processed ?s2 j))\<rparr>))"
    by (simp only: process_all [OF l])
  moreover have "sensorRaw ?s2 = raw_values e" "sensorDiff ?s2 = raw_values e"
    "cal_flag ?s2 = FALSE"
    "sensorEmptyOffset ?s2 = raw_values e @ drop NUMSENSORS (sensorEmptyOffset s)"
    "eeprom_log ?s2 = eeprom_log s @
                      [(LOGICAL_EM_EEPROM_START, sensorEmptyOffset ?s2, LOGICAL_EM_EEPROM_SIZE)]"
    by simp_all
  ultimately show ?thesis using True by (intro exI [of _ ?s2]) (simp only: if_True simp_thms)
next
  case False
  from ok False have env: "\<not> capsense_busy e" "process_widgets_ok e" "scan_widgets_ok e"
    by (auto simp: cycle_completes_def)
  let ?s2 = "s\<lparr>sensorRaw := raw_values e, sensorDiff := raw_values e\<rparr>"
  have sc: "scan_complete e s = Inr (fold process_sensor [0..<NUMSENSORS]
                                      (?s2\<lparr>sensorActiveCount := 0\<rparr>))"
    using scan_complete_plain [OF wf env(2,3) False] by simp
  have l: "length (sensorDiff ?s2) = NUMSENSORS" "length (sensorProcessed ?s2) = NUMSENSORS"
    using wf by (simp_all add: wf_state_def)
  have "pipeline_cycle e s = Inr (calculate_level (fold process_sensor [0..<NUMSENSORS]
                                      (?s2\<lparr>sensorActiveCount := 0\<rparr>)))"
    using env(1) sc by (simp add: pipeline_cycle_def)
  then have "pipeline_cycle e s =
                Inr (calculate_level
                       (?s2\<lparr>sensorDiff := map (slot_diff ?s2) [0..<NUMSENSORS],
                           sensorProcessed := map (slot_processed ?s2) [0..<NUMSENSORS],
                           sensorActiveCount :=
                             of_nat (\<Sum>j<NUMSENSORS. slot_weight j (slot_processed ?s2 j))\<rparr>))"
    by (simp only: process_all [OF l])
  moreover have "sensorRaw ?s2 = raw_values e" "sensorDiff ?s2 = raw_values e"
    "cal_flag ?s2 = cal_flag s" "sensorEmptyOffset ?s2 = sensorEmptyOffset s"
    "eeprom_log ?s2 = eeprom_log s"
    by simp_all
  ultimately show ?thesis using False by (intro exI [of _ ?s2]) (simp only: if_False simp_thms)
qed

section \<open>C4: the diff is floored at zero\<close>

lemma slot_diff_value:
  assumes "0 \<le> sint a" "sint a \<le> 65535" "- 32768 \<le> sint b" "sint b \<le> 65535"
  shows "sint (let d0 = a - b in if sint d0 < 0 then 0 else d0) = max 0 (sint a - sint (b :: 32 word))"
proof -
  have "sint (a - b) = sint a - sint b" using assms by (intro sint_sub_noov) linarith+
  then show ?thesis by (simp add: Let_def)
qed

lemma raw_value_range:
  assumes "i < NUMSENSORS"
  shows "sint (raw_values e ! i) = uint (raw_counts e i)"
    and "0 \<le> sint (raw_values e ! i)" and "sint (raw_values e ! i) \<le> 65535"
proof -
  show r: "sint (raw_values e ! i) = uint (raw_counts e i)"
    by (simp add: nth_raw_values [OF assms] sint_ucast_16_32)
  define a where "a = uint (raw_counts e i)"
  have "0 \<le> a" "a < 65536" using uint16_bound [of "raw_counts e i"] by (simp_all add: a_def)
  then show "0 \<le> sint (raw_values e ! i)" "sint (raw_values e ! i) \<le> 65535"
    unfolding r a_def [symmetric] by linarith+
qed

lemma baseline_nth:
  assumes "baseline_in_range s" "NUMSENSORS \<le> length (sensorEmptyOffset s)" "i < NUMSENSORS"
  shows "- 32768 \<le> sint (sensorEmptyOffset s ! i) \<and> sint (sensorEmptyOffset s ! i) \<le> 65535"
proof -
  have "i < length (take NUMSENSORS (sensorEmptyOffset s))" using assms(2,3) by simp
  with assms(1) have "- 32768 \<le> sint (take NUMSENSORS (sensorEmptyOffset s) ! i) \<and>
                      sint (take NUMSENSORS (sensorEmptyOffset s) ! i) \<le> 65535"
    unfolding baseline_in_range_def list_all_length by blast
  then show ?thesis using assms(3) by simp
qed

lemma baseline_from_nth:
  assumes "NUMSENSORS \<le> length (sensorEmptyOffset s)"
    "\<And>i. i < NUMSENSORS \<Longrightarrow>
       - 32768 \<le> sint (sensorEmptyOffset s ! i) \<and> sint (sensorEmptyOffset s ! i) \<le> 65535"
  shows "baseline_in_range s"
  unfolding baseline_in_range_def list_all_length using assms by simp

lemma wf_lengths:
  "wf_state s \<Longrightarrow> NUMSENSORS \<le> length (sensorEmptyOffset s)"
  by (simp add: wf_state_def NUMSENSORS_def LOGICAL_EM_EEPROM_SIZE_def)

lemma cal_offsets_nth:
  "i < NUMSENSORS \<Longrightarrow> (raw_values e @ drop NUMSENSORS xs) ! i = raw_values e ! i"
  by (simp add: nth_append)

text \<open>
  C4. In every pass that completes a scan, from a state whose baselines are in the range
  the program can hold, each slot's diff is \<open>max(0, raw - baseline)\<close>, where raw is the
  count just read and baseline is the baseline in effect in that pass: the baseline the
  pass started with, or the raw count itself when the pass saves a calibration. The
  baselines the pass returns are these, so the diff is also \<open>max(0, raw - baseline)\<close> of
  the arrays returned; it is never negative; the pass returns, and the baselines stay
  in range.
\<close>

theorem diff_floor:
  assumes wf: "wf_state s" and ok: "cycle_completes e s" and base: "baseline_in_range s"
  shows "\<exists>s'. pipeline_cycle e s = Inr s' \<and> baseline_in_range s' \<and>
              (\<forall>i<NUMSENSORS.
                 sint (sensorRaw s' ! i) = uint (raw_counts e i) \<and>
                 sensorEmptyOffset s' ! i =
                   (if cal_flag s = TRUE then ucast (raw_counts e i) else sensorEmptyOffset s ! i) \<and>
                 sint (sensorDiff s' ! i) =
                   max 0 (uint (raw_counts e i) -
                          (if cal_flag s = TRUE then uint (raw_counts e i)
                           else sint (sensorEmptyOffset s ! i))) \<and>
                 sint (sensorDiff s' ! i) =
                   max 0 (sint (sensorRaw s' ! i) - sint (sensorEmptyOffset s' ! i)) \<and>
                 0 \<le> sint (sensorDiff s' ! i))"
proof -
  from pipeline_cycle_result [OF wf ok] obtain s2 where
    r: "pipeline_cycle e s =
                Inr (calculate_level
                       (s2\<lparr>sensorDiff := map (slot_diff s2) [0..<NUMSENSORS],
                           sensorProcessed := map (slot_processed s2) [0..<NUMSENSORS],
                           sensorActiveCount :=
                             of_nat (\<Sum>j<NUMSENSORS. slot_weight j (slot_processed s2 j))\<rparr>))"
    and raw: "sensorRaw s2 = raw_values e" and diff: "sensorDiff s2 = raw_values e"
    and off: "if cal_flag s = TRUE
               then cal_flag s2 = FALSE \<and>
                    sensorEmptyOffset s2 = raw_values e @ drop NUMSENSORS (sensorEmptyOffset s) \<and>
                    eeprom_log s2 = eeprom_log s @
                      [(LOGICAL_EM_EEPROM_START, sensorEmptyOffset s2, LOGICAL_EM_EEPROM_SIZE)]
               else cal_flag s2 = cal_flag s \<and> sensorEmptyOffset s2 = sensorEmptyOffset s \<and>
                    eeprom_log s2 = eeprom_log s"
    by blast
  let ?s' = "calculate_level
                       (s2\<lparr>sensorDiff := map (slot_diff s2) [0..<NUMSENSORS],
                           sensorProcessed := map (slot_processed s2) [0..<NUMSENSORS],
                           sensorActiveCount :=
                             of_nat (\<Sum>j<NUMSENSORS. slot_weight j (slot_processed s2 j))\<rparr>)"
  have len: "NUMSENSORS \<le> length (sensorEmptyOffset s2)"
    using off wf_lengths [OF wf] by (cases "cal_flag s = TRUE") simp_all
  have offv: "sensorEmptyOffset s2 ! i =
                (if cal_flag s = TRUE then ucast (raw_counts e i) else sensorEmptyOffset s ! i)"
    if i: "i < NUMSENSORS" for i
  proof (cases "cal_flag s = TRUE")
    case True
    with off have "sensorEmptyOffset s2 ! i = raw_values e ! i"
      by (simp add: cal_offsets_nth [OF i])
    then show ?thesis using True nth_raw_values [OF i, of e] by simp
  next
    case False
    with off show ?thesis by simp
  qed
  have offs: "sint (sensorEmptyOffset s2 ! i) =
                (if cal_flag s = TRUE then uint (raw_counts e i)
                 else sint (sensorEmptyOffset s ! i))"
    if i: "i < NUMSENSORS" for i
    unfolding offv [OF i] by (simp add: sint_ucast_16_32)
  have offr: "- 32768 \<le> sint (sensorEmptyOffset s2 ! i) \<and> sint (sensorEmptyOffset s2 ! i) \<le> 65535"
    if i: "i < NUMSENSORS" for i
  proof (cases "cal_flag s = TRUE")
    case True
    with off have "sensorEmptyOffset s2 ! i = raw_values e ! i"
      by (simp add: cal_offsets_nth [OF i])
    then show ?thesis using raw_value_range(2,3) [OF i, of e] by simp
  next
    case False
    with off have "sensorEmptyOffset s2 = sensorEmptyOffset s" by simp
    then show ?thesis using baseline_nth [OF base wf_lengths [OF wf] i] by simp
  qed
  have b': "baseline_in_range ?s'"
    by (rule baseline_from_nth) (use len offr in simp_all)
  have slots: "sint (sensorRaw ?s' ! i) = uint (raw_counts e i) \<and>
               sensorEmptyOffset ?s' ! i =
                   (if cal_flag s = TRUE then ucast (raw_counts e i) else sensorEmptyOffset s ! i) \<and>
               sint (sensorDiff ?s' ! i) =
                   max 0 (uint (raw_counts e i) -
                          (if cal_flag s = TRUE then uint (raw_counts e i)
                           else sint (sensorEmptyOffset s ! i))) \<and>
               sint (sensorDiff ?s' ! i) =
                   max 0 (sint (sensorRaw ?s' ! i) - sint (sensorEmptyOffset ?s' ! i)) \<and>
               0 \<le> sint (sensorDiff ?s' ! i)" if i: "i < NUMSENSORS" for i
  proof -
    have d: "sensorDiff ?s' ! i = slot_diff s2 i" using i by simp
    have o: "sensorEmptyOffset ?s' = sensorEmptyOffset s2" by simp
    have w: "sint (sensorRaw ?s' ! i) = uint (raw_counts e i)"
      using raw_value_range(1) [OF i, of e] by (simp add: raw)
    have v: "sint (slot_diff s2 i) =
               max 0 (sint (raw_values e ! i) - sint (sensorEmptyOffset s2 ! i))"
      unfolding slot_diff_def diff
      using raw_value_range(2,3) [OF i, of e] offr [OF i] by (intro slot_diff_value) simp_all
    have v1: "sint (sensorDiff ?s' ! i) =
                max 0 (sint (sensorRaw ?s' ! i) - sint (sensorEmptyOffset ?s' ! i))"
      unfolding d v using raw_value_range(1) [OF i, of e] by (simp add: raw)
    have v2: "sint (sensorDiff ?s' ! i) =
                max 0 (uint (raw_counts e i) -
                       (if cal_flag s = TRUE then uint (raw_counts e i)
                        else sint (sensorEmptyOffset s ! i)))"
      unfolding v1 w o offs [OF i] by (rule refl)
    have nn: "0 \<le> sint (sensorDiff ?s' ! i)" unfolding v1 by simp
    have ov: "sensorEmptyOffset ?s' ! i =
                (if cal_flag s = TRUE then ucast (raw_counts e i) else sensorEmptyOffset s ! i)"
      unfolding o by (rule offv [OF i])
    from w ov v2 v1 nn show ?thesis by blast
  qed
  from r b' slots show ?thesis by blast
qed

section \<open>C6, C7, C10: active count and calibration\<close>

text \<open>
  C6. After every pass that completes a scan the active count is the sum over the slots
  of the weight of the submersion test on the stored processed value (1 for slot 0 and
  slot N-1, 2 for the others), and it is at most \<open>2 * (N - 2) + 2 = 22\<close>.
\<close>

theorem active_count:
  assumes wf: "wf_state s" and ok: "cycle_completes e s"
  shows "\<exists>s'. pipeline_cycle e s = Inr s' \<and>
              unat (sensorActiveCount s') =
                (\<Sum>i<NUMSENSORS. slot_weight i (sensorProcessed s' ! i)) \<and>
              unat (sensorActiveCount s') \<le> 2 * (NUMSENSORS - 2) + 2"
proof -
  from pipeline_cycle_result [OF wf ok] obtain s2 where
    r: "pipeline_cycle e s =
                Inr (calculate_level
                       (s2\<lparr>sensorDiff := map (slot_diff s2) [0..<NUMSENSORS],
                           sensorProcessed := map (slot_processed s2) [0..<NUMSENSORS],
                           sensorActiveCount :=
                             of_nat (\<Sum>j<NUMSENSORS. slot_weight j (slot_processed s2 j))\<rparr>))"
    by blast
  let ?s' = "calculate_level
                       (s2\<lparr>sensorDiff := map (slot_diff s2) [0..<NUMSENSORS],
                           sensorProcessed := map (slot_processed s2) [0..<NUMSENSORS],
                           sensorActiveCount :=
                             of_nat (\<Sum>j<NUMSENSORS. slot_weight j (slot_processed s2 j))\<rparr>)"
  have ac: "unat (sensorActiveCount ?s') = (\<Sum>j<NUMSENSORS. slot_weight j (slot_processed s2 j))"
    using unat_weight_sum [of "slot_processed s2"] by simp
  have "(\<Sum>i<NUMSENSORS. slot_weight i (sensorProcessed ?s' ! i)) =
        (\<Sum>j<NUMSENSORS. slot_weight j (slot_processed s2 j))"
    by (rule sum.cong) simp_all
  then have eq: "unat (sensorActiveCount ?s') =
                   (\<Sum>i<NUMSENSORS. slot_weight i (sensorProcessed ?s' ! i))"
    using ac by (simp only:)
  have "unat (sensorActiveCount ?s') \<le> 22"
    unfolding ac by (rule weight_sum_bound)
  then have bd: "unat (sensorActiveCount ?s') \<le> 2 * (NUMSENSORS - 2) + 2"
    by (simp add: NUMSENSORS_def)
  from r eq bd show ?thesis by blast
qed

lemma limits_nonneg: "i < NUMSENSORS \<Longrightarrow> \<not> sint (sensorLimits ! i) sdiv 2 < 0"
proof -
  assume i: "i < NUMSENSORS"
  have all: "\<forall>x\<in>set sensorLimits. \<not> sint x sdiv 2 < 0" by (simp add: sensorLimits_def)
  have "i < length sensorLimits" using i by (simp add: sensorLimits_def NUMSENSORS_def)
  then have "sensorLimits ! i \<in> set sensorLimits" by (rule nth_mem)
  with all show ?thesis by blast
qed

lemma slot_weight_zero: "i < NUMSENSORS \<Longrightarrow> slot_weight i 0 = 0"
  using limits_nonneg [of i] by (simp add: slot_weight_def)

text \<open>
  C7. In a pass with the calibration request set, whatever the old baselines were, the
  state returned has the request cleared, the new baselines (the raw counts of this
  scan) handed to the byte store, and diff, processed values, active count, height and
  percent computed against these new baselines: the height is the active count times
  half the slot height, snapped to the maximum when within a quarter slot of it, the
  percent is \<open>height * 100 / 153\<close>, and since every raw count equals its new baseline
  the active count, the height and the percent are 0, whatever they were before.
\<close>

theorem calibration_first:
  assumes wf: "wf_state s" and ok: "cycle_completes e s" and cal: "cal_flag s = TRUE"
  shows "\<exists>s'. pipeline_cycle e s = Inr s' \<and> cal_flag s' = FALSE \<and>
              eeprom_log s' = eeprom_log s @
                [(LOGICAL_EM_EEPROM_START, sensorEmptyOffset s', LOGICAL_EM_EEPROM_SIZE)] \<and>
              (\<forall>i<NUMSENSORS.
                 sensorEmptyOffset s' ! i = ucast (raw_counts e i) \<and>
                 sint (sensorDiff s' ! i) =
                   max 0 (uint (raw_counts e i) - sint (sensorEmptyOffset s' ! i)) \<and>
                 sensorProcessed s' ! i =
                   signed_drop_bit 8 (sensorDiff s' ! i * scast (sensorScale ! i))) \<and>
              unat (sensorActiveCount s') =
                (\<Sum>i<NUMSENSORS. slot_weight i (sensorProcessed s' ! i)) \<and>
              calculate_level s' = s' \<and>
              sint (levelMm s') =
                (let h = uint (sensorActiveCount s') * (sint sensorHeight div 2);
                     top = sint LEVELMM_MAX * 256
                 in if \<bar>top - h\<bar> < sint sensorHeight div 4 then top else h) \<and>
              levelPercent s' = (levelMm s' * 100) div LEVELMM_MAX \<and>
              sensorActiveCount s' = 0 \<and> levelMm s' = 0 \<and> levelPercent s' = 0"
proof -
  from pipeline_cycle_result [OF wf ok] cal obtain s2 where
    r: "pipeline_cycle e s =
                Inr (calculate_level
                       (s2\<lparr>sensorDiff := map (slot_diff s2) [0..<NUMSENSORS],
                           sensorProcessed := map (slot_processed s2) [0..<NUMSENSORS],
                           sensorActiveCount :=
                             of_nat (\<Sum>j<NUMSENSORS. slot_weight j (slot_processed s2 j))\<rparr>))"
    and raw: "sensorRaw s2 = raw_values e" and diff: "sensorDiff s2 = raw_values e"
    and cf: "cal_flag s2 = FALSE"
    and off: "sensorEmptyOffset s2 = raw_values e @ drop NUMSENSORS (sensorEmptyOffset s)"
    and log: "eeprom_log s2 = eeprom_log s @
                      [(LOGICAL_EM_EEPROM_START, sensorEmptyOffset s2, LOGICAL_EM_EEPROM_SIZE)]"
    by (auto simp only: if_True)
  let ?s3 = "s2\<lparr>sensorDiff := map (slot_diff s2) [0..<NUMSENSORS],
                           sensorProcessed := map (slot_processed s2) [0..<NUMSENSORS],
                           sensorActiveCount :=
                             of_nat (\<Sum>j<NUMSENSORS. slot_weight j (slot_processed s2 j))\<rparr>"
  let ?s' = "calculate_level ?s3"
  have c1: "cal_flag ?s' = FALSE" using cf by simp
  have c2: "eeprom_log ?s' = eeprom_log s @
                [(LOGICAL_EM_EEPROM_START, sensorEmptyOffset ?s', LOGICAL_EM_EEPROM_SIZE)]"
    using log by simp
  have slots: "sensorEmptyOffset ?s' ! i = ucast (raw_counts e i) \<and>
                 sint (sensorDiff ?s' ! i) =
                   max 0 (uint (raw_counts e i) - sint (sensorEmptyOffset ?s' ! i)) \<and>
                 sensorProcessed ?s' ! i =
                   signed_drop_bit 8 (sensorDiff ?s' ! i * scast (sensorScale ! i))"
    if i: "i < NUMSENSORS" for i
  proof -
    have o: "sensorEmptyOffset s2 ! i = raw_values e ! i"
      unfolding off by (rule cal_offsets_nth [OF i])
    have v: "sint (slot_diff s2 i) =
               max 0 (sint (raw_values e ! i) - sint (sensorEmptyOffset s2 ! i))"
      unfolding slot_diff_def diff
      using raw_value_range(2,3) [OF i, of e] unfolding o
      by (intro slot_diff_value) simp_all
    have d: "sensorDiff ?s' ! i = slot_diff s2 i" using i by simp
    have p: "sensorProcessed ?s' ! i = slot_processed s2 i" using i by simp
    have "sensorEmptyOffset ?s' ! i = ucast (raw_counts e i)"
      using o nth_raw_values [OF i, of e] by simp
    moreover have "sint (sensorDiff ?s' ! i) =
                   max 0 (uint (raw_counts e i) - sint (sensorEmptyOffset ?s' ! i))"
      unfolding d v using raw_value_range(1) [OF i, of e] by simp
    moreover have "sensorProcessed ?s' ! i =
                   signed_drop_bit 8 (sensorDiff ?s' ! i * scast (sensorScale ! i))"
      unfolding d p by (simp add: slot_processed_def)
    ultimately show ?thesis by blast
  qed
  have ac: "unat (sensorActiveCount ?s') = (\<Sum>j<NUMSENSORS. slot_weight j (slot_processed s2 j))"
    using unat_weight_sum [of "slot_processed s2"] by simp
  have "(\<Sum>i<NUMSENSORS. slot_weight i (sensorProcessed ?s' ! i)) =
        (\<Sum>j<NUMSENSORS. slot_weight j (slot_processed s2 j))"
    by (rule sum.cong) simp_all
  then have eq: "unat (sensorActiveCount ?s') =
                   (\<Sum>i<NUMSENSORS. slot_weight i (sensorProcessed ?s' ! i))"
    using ac by (simp only:)
  have idem: "calculate_level ?s' = ?s'" by (rule calculate_level_idem)
  have acs: "sensorActiveCount ?s' = sensorActiveCount ?s3" by simp
  have "unat (sensorActiveCount ?s') \<le> 22"
    unfolding ac by (rule weight_sum_bound)
  then have bd: "unat (sensorActiveCount ?s3) \<le> 22" unfolding acs .
  have mm: "sint (levelMm ?s') =
                (let h = uint (sensorActiveCount ?s') * (sint sensorHeight div 2);
                     top = sint LEVELMM_MAX * 256
                 in if \<bar>top - h\<bar> < sint sensorHeight div 4 then top else h)"
    unfolding acs by (rule calculate_level_mm [OF bd])
  have pc: "levelPercent ?s' = (levelMm ?s' * 100) div LEVELMM_MAX"
    by (simp add: calculate_level_def Let_def)
  have sd: "slot_diff s2 i = 0" if i: "i < NUMSENSORS" for i
    unfolding slot_diff_def diff off cal_offsets_nth [OF i] by simp
  have sp: "slot_processed s2 i = 0" if i: "i < NUMSENSORS" for i
    by (simp add: slot_processed_def sd [OF i])
  have "(\<Sum>j<NUMSENSORS. slot_weight j (slot_processed s2 j)) = (\<Sum>j<NUMSENSORS. 0)"
    by (rule sum.cong) (simp_all add: sp slot_weight_zero)
  then have z: "(\<Sum>j<NUMSENSORS. slot_weight j (slot_processed s2 j)) = 0" by simp
  have ac3: "sensorActiveCount ?s3 = 0" by (simp add: z)
  have ac0: "sensorActiveCount ?s' = 0" using ac3 by simp
  have lv: "levelMm ?s' = 0" "levelPercent ?s' = 0"
    using calculate_level_zero [OF ac3] by blast+
  from r c1 c2 slots eq idem mm pc ac0 lv show ?thesis by blast
qed

text \<open>
  C10. In a pass that saves a calibration every baseline becomes that pass's raw count,
  and every diff and processed value, the active count, the height and the percent
  are 0.
\<close>

theorem fresh_calibration_reads_empty:
  assumes wf: "wf_state s" and ok: "cycle_completes e s" and cal: "cal_flag s = TRUE"
  shows "\<exists>s'. pipeline_cycle e s = Inr s' \<and>
              (\<forall>i<NUMSENSORS.
                 sensorRaw s' ! i = ucast (raw_counts e i) \<and>
                 sensorEmptyOffset s' ! i = sensorRaw s' ! i \<and>
                 sensorDiff s' ! i = 0 \<and> sensorProcessed s' ! i = 0) \<and>
              sensorActiveCount s' = 0 \<and> levelMm s' = 0 \<and> levelPercent s' = 0"
proof -
  from pipeline_cycle_result [OF wf ok] cal obtain s2 where
    r: "pipeline_cycle e s =
                Inr (calculate_level
                       (s2\<lparr>sensorDiff := map (slot_diff s2) [0..<NUMSENSORS],
                           sensorProcessed := map (slot_processed s2) [0..<NUMSENSORS],
                           sensorActiveCount :=
                             of_nat (\<Sum>j<NUMSENSORS. slot_weight j (slot_processed s2 j))\<rparr>))"
    and raw: "sensorRaw s2 = raw_values e" and diff: "sensorDiff s2 = raw_values e"
    and off: "sensorEmptyOffset s2 = raw_values e @ drop NUMSENSORS (sensorEmptyOffset s)"
    by (auto simp only: if_True)
  let ?s3 = "s2\<lparr>sensorDiff := map (slot_diff s2) [0..<NUMSENSORS],
                           sensorProcessed := map (slot_processed s2) [0..<NUMSENSORS],
                           sensorActiveCount :=
                             of_nat (\<Sum>j<NUMSENSORS. slot_weight j (slot_processed s2 j))\<rparr>"
  let ?s' = "calculate_level ?s3"
  have sd: "slot_diff s2 i = 0" if i: "i < NUMSENSORS" for i
    unfolding slot_diff_def diff off cal_offsets_nth [OF i] by simp
  have sp: "slot_processed s2 i = 0" if i: "i < NUMSENSORS" for i
    by (simp add: slot_processed_def sd [OF i])
  have "(\<Sum>j<NUMSENSORS. slot_weight j (slot_processed s2 j)) = (\<Sum>j<NUMSENSORS. 0)"
    by (rule sum.cong) (simp_all add: sp slot_weight_zero)
  then have z: "(\<Sum>j<NUMSENSORS. slot_weight j (slot_processed s2 j)) = 0" by simp
  have ac3: "sensorActiveCount ?s3 = 0" by (simp add: z)
  have ac: "sensorActiveCount ?s' = 0" using ac3 by simp
  have lv: "levelMm ?s' = 0" "levelPercent ?s' = 0"
    using calculate_level_zero [OF ac3] by blast+
  have slots: "sensorRaw ?s' ! i = ucast (raw_counts e i) \<and>
                 sensorEmptyOffset ?s' ! i = sensorRaw ?s' ! i \<and>
                 sensorDiff ?s' ! i = 0 \<and> sensorProcessed ?s' ! i = 0"
    if i: "i < NUMSENSORS" for i
    using i by (simp add: raw off cal_offsets_nth [OF i] nth_raw_values [OF i] sd [OF i] sp [OF i])
  from r slots ac lv show ?thesis by blast
qed

section \<open>Instances of the pipeline theorems\<close>

lemma init_wf: "wf_state init_state"
  by (simp add: wf_state_def init_state_def)

theorem diff_floor_witness:
  "wf_state (init_state\<lparr>sensorEmptyOffset := replicate 32 200\<rparr>) \<and>
   baseline_in_range (init_state\<lparr>sensorEmptyOffset := replicate 32 200\<rparr>) \<and>
   (\<exists>s'. pipeline_cycle
            \<lparr>capsense_busy = False, process_widgets_ok = True, scan_widgets_ok = True,
               raw_counts = (\<lambda>i. if i = 0 then 100 else 1000),
               eeprom_write_status = CY_EM_EEPROM_SUCCESS\<rparr>
            (init_state\<lparr>sensorEmptyOffset := replicate 32 200\<rparr>) = Inr s' \<and>
         sint (sensorRaw s' ! 0) = 100 \<and> sensorEmptyOffset s' ! 0 = 200 \<and>
         sint (sensorDiff s' ! 0) = 0 \<and>
         sint (sensorDiff s' ! 0) = max 0 (sint (sensorRaw s' ! 0) - sint (sensorEmptyOffset s' ! 0)) \<and>
         sint (sensorRaw s' ! 1) = 1000 \<and> sensorEmptyOffset s' ! 1 = 200 \<and>
         sint (sensorDiff s' ! 1) = 800 \<and>
         sint (sensorDiff s' ! 1) = max 0 (sint (sensorRaw s' ! 1) - sint (sensorEmptyOffset s' ! 1)))"
proof -
  let ?e = "\<lparr>capsense_busy = False, process_widgets_ok = True, scan_widgets_ok = True,
               raw_counts = (\<lambda>i. if i = 0 then 100 else (1000 :: 16 word)),
               eeprom_write_status = CY_EM_EEPROM_SUCCESS\<rparr>"
  let ?s = "init_state\<lparr>sensorEmptyOffset := replicate 32 200\<rparr>"
  have wf: "wf_state ?s"
    using init_wf by (simp add: wf_state_def LOGICAL_EM_EEPROM_SIZE_def)
  have ok: "cycle_completes ?e ?s" by (simp add: cycle_completes_def init_state_def)
  have base: "baseline_in_range ?s"
    by (simp add: baseline_in_range_def NUMSENSORS_def list_all_iff)
  have nc: "cal_flag ?s \<noteq> TRUE" by (simp add: init_state_def)
  from diff_floor [OF wf ok base] obtain s' where
    r: "pipeline_cycle ?e ?s = Inr s'"
    and sl: "\<forall>i<NUMSENSORS.
                 sint (sensorRaw s' ! i) = uint (raw_counts ?e i) \<and>
                 sensorEmptyOffset s' ! i =
                   (if cal_flag ?s = TRUE then ucast (raw_counts ?e i) else sensorEmptyOffset ?s ! i) \<and>
                 sint (sensorDiff s' ! i) =
                   max 0 (uint (raw_counts ?e i) -
                          (if cal_flag ?s = TRUE then uint (raw_counts ?e i)
                           else sint (sensorEmptyOffset ?s ! i))) \<and>
                 sint (sensorDiff s' ! i) =
                   max 0 (sint (sensorRaw s' ! i) - sint (sensorEmptyOffset s' ! i)) \<and>
                 0 \<le> sint (sensorDiff s' ! i)"
    by blast
  have i0: "0 < NUMSENSORS" and i1: "1 < NUMSENSORS" by (simp_all add: NUMSENSORS_def)
  from sl i0 have a0: "sint (sensorRaw s' ! 0) = uint (raw_counts ?e 0) \<and>
                 sensorEmptyOffset s' ! 0 =
                   (if cal_flag ?s = TRUE then ucast (raw_counts ?e 0) else sensorEmptyOffset ?s ! 0) \<and>
                 sint (sensorDiff s' ! 0) =
                   max 0 (uint (raw_counts ?e 0) -
                          (if cal_flag ?s = TRUE then uint (raw_counts ?e 0)
                           else sint (sensorEmptyOffset ?s ! 0))) \<and>
                 sint (sensorDiff s' ! 0) =
                   max 0 (sint (sensorRaw s' ! 0) - sint (sensorEmptyOffset s' ! 0))"
    by blast
  from sl i1 have a1: "sint (sensorRaw s' ! 1) = uint (raw_counts ?e 1) \<and>
                 sensorEmptyOffset s' ! 1 =
                   (if cal_flag ?s = TRUE then ucast (raw_counts ?e 1) else sensorEmptyOffset ?s ! 1) \<and>
                 sint (sensorDiff s' ! 1) =
                   max 0 (uint (raw_counts ?e 1) -
                          (if cal_flag ?s = TRUE then uint (raw_counts ?e 1)
                           else sint (sensorEmptyOffset ?s ! 1))) \<and>
                 sint (sensorDiff s' ! 1) =
                   max 0 (sint (sensorRaw s' ! 1) - sint (sensorEmptyOffset s' ! 1))"
    by blast
  have a: "sint (sensorRaw s' ! 0) = 100" "sensorEmptyOffset s' ! 0 = 200"
    "sint (sensorDiff s' ! 0) = 0"
    "sint (sensorDiff s' ! 0) = max 0 (sint (sensorRaw s' ! 0) - sint (sensorEmptyOffset s' ! 0))"
    using a0 nc by simp_all
  have b: "sint (sensorRaw s' ! 1) = 1000" "sensorEmptyOffset s' ! 1 = 200"
    "sint (sensorDiff s' ! 1) = 800"
    "sint (sensorDiff s' ! 1) = max 0 (sint (sensorRaw s' ! 1) - sint (sensorEmptyOffset s' ! 1))"
    using a1 nc by simp_all
  from wf base r a b show ?thesis by blast
qed

lemma cal_env_ok:
  "cycle_completes
     \<lparr>capsense_busy = False, process_widgets_ok = True, scan_widgets_ok = True,
        raw_counts = (\<lambda>i. 1000), eeprom_write_status = CY_EM_EEPROM_SUCCESS\<rparr> s"
  by (simp add: cycle_completes_def)

theorem active_count_witness:
  "wf_state init_state \<and>
   (\<exists>s'. pipeline_cycle
            \<lparr>capsense_busy = False, process_widgets_ok = True, scan_widgets_ok = True,
               raw_counts = (\<lambda>i. 1000), eeprom_write_status = CY_EM_EEPROM_SUCCESS\<rparr>
            init_state = Inr s' \<and>
          unat (sensorActiveCount s') =
                (\<Sum>i<NUMSENSORS. slot_weight i (sensorProcessed s' ! i)) \<and>
          unat (sensorActiveCount s') \<le> 2 * (NUMSENSORS - 2) + 2)"
  using active_count [OF init_wf cal_env_ok] init_wf by blast

lemma cal_state: "wf_state (init_state\<lparr>cal_flag := TRUE\<rparr>)" "cal_flag (init_state\<lparr>cal_flag := TRUE\<rparr>) = TRUE"
  using init_wf by (simp_all add: wf_state_def)

theorem calibration_first_witness:
  "wf_state (init_state\<lparr>cal_flag := TRUE\<rparr>) \<and>
   cal_flag (init_state\<lparr>cal_flag := TRUE\<rparr>) = TRUE \<and>
   (\<exists>s'. pipeline_cycle
            \<lparr>capsense_busy = False, process_widgets_ok = True, scan_widgets_ok = True,
               raw_counts = (\<lambda>i. 1000), eeprom_write_status = CY_EM_EEPROM_SUCCESS\<rparr>
            (init_state\<lparr>cal_flag := TRUE\<rparr>) = Inr s' \<and>
          cal_flag s' = FALSE \<and>
          eeprom_log s' = eeprom_log (init_state\<lparr>cal_flag := TRUE\<rparr>) @
                [(LOGICAL_EM_EEPROM_START, sensorEmptyOffset s', LOGICAL_EM_EEPROM_SIZE)] \<and>
          calculate_level s' = s' \<and>
          levelPercent s' = (levelMm s' * 100) div LEVELMM_MAX \<and>
          sensorActiveCount s' = 0 \<and> levelMm s' = 0 \<and> levelPercent s' = 0)"
  using calibration_first [OF cal_state(1) cal_env_ok cal_state(2)] cal_state by blast

theorem fresh_calibration_reads_empty_witness:
  "wf_state (init_state\<lparr>cal_flag := TRUE\<rparr>) \<and>
   cal_flag (init_state\<lparr>cal_flag := TRUE\<rparr>) = TRUE \<and>
   (\<exists>s'. pipeline_cycle
            \<lparr>capsense_busy = False, process_widgets_ok = True, scan_widgets_ok = True,
               raw_counts = (\<lambda>i. 1000), eeprom_write_status = CY_EM_EEPROM_SUCCESS\<rparr>
            (init_state\<lparr>cal_flag := TRUE\<rparr>) = Inr s' \<and>
          sensorActiveCount s' = 0 \<and> levelMm s' = 0 \<and> levelPercent s' = 0)"
  using fresh_calibration_reads_empty [OF cal_state(1) cal_env_ok cal_state(2)] cal_state by blast

lemma pipeline_examples:
  "map_sum id (\<lambda>s. (sensorDiff s, sensorProcessed s, sensorActiveCount s, levelMm s, levelPercent s))
     (pipeline_cycle
        \<lparr>capsense_busy = False, process_widgets_ok = True, scan_widgets_ok = True,
           raw_counts = (\<lambda>i. if i = 0 then 100 else 1000),
           eeprom_write_status = CY_EM_EEPROM_SUCCESS\<rparr>
        (init_state\<lparr>sensorEmptyOffset := replicate 32 200\<rparr>)) =
   Inr ([0, 800, 800, 800, 800, 800, 800, 800, 800, 800, 800, 800],
        [0, 800, 800, 800, 800, 800, 800, 800, 800, 800, 800, 1400], 21, 37380, 24431)"
  by code_simp

section \<open>Baselines at start-up\<close>

lemma load_offsets_loop:
  fixes eeprom :: "nat \<Rightarrow> 16 word"
  assumes "n \<le> length (sensorEmptyOffset s)"
  shows "fold (\<lambda>index t. t\<lparr>sensorEmptyOffset :=
                              (sensorEmptyOffset t)[index := scast (eeprom index)]\<rparr>) [0..<n] s =
           s\<lparr>sensorEmptyOffset := map (\<lambda>j. scast (eeprom j)) [0..<n] @ drop n (sensorEmptyOffset s)\<rparr>"
  using assms
proof (induction n)
  case 0
  show ?case by simp
next
  case (Suc n)
  let ?f = "\<lambda>j. (scast (eeprom j :: 16 word) :: 32 word)"
  have l: "length (map ?f [0..<n]) = n" by simp
  from Suc.prems have lt: "n < length (sensorEmptyOffset s)" by simp
  have ih: "fold (\<lambda>index t. t\<lparr>sensorEmptyOffset :=
                              (sensorEmptyOffset t)[index := scast (eeprom index)]\<rparr>) [0..<n] s =
           s\<lparr>sensorEmptyOffset := map ?f [0..<n] @ drop n (sensorEmptyOffset s)\<rparr>"
    using Suc.prems by (intro Suc.IH) simp
  have m: "map ?f [0..<Suc n] = map ?f [0..<n] @ [?f n]" by simp
  show ?case
    unfolding fold_upt_Suc ih m by (simp add: upd_prefix [OF l lt])
qed

text \<open>The baselines read at start-up are in the range the pipeline relies on.\<close>

lemma load_calibration_range:
  assumes "wf_state s"
  shows "baseline_in_range (load_calibration eeprom s)"
proof -
  have le: "NUMSENSORS \<le> length (sensorEmptyOffset s)" by (rule wf_lengths [OF assms])
  have o: "sensorEmptyOffset (load_calibration eeprom s) =
             map (\<lambda>j. scast (eeprom j)) [0..<NUMSENSORS] @ drop NUMSENSORS (sensorEmptyOffset s)"
    unfolding load_calibration_def load_offsets_loop [OF le] by simp
  show ?thesis
  proof (rule baseline_from_nth)
    show "NUMSENSORS \<le> length (sensorEmptyOffset (load_calibration eeprom s))"
      unfolding o using le by simp
  next
    fix i assume i: "i < NUMSENSORS"
    have "sensorEmptyOffset (load_calibration eeprom s) ! i = scast (eeprom i)"
      unfolding o using i by (simp add: nth_append)
    then show "- 32768 \<le> sint (sensorEmptyOffset (load_calibration eeprom s) ! i) \<and>
               sint (sensorEmptyOffset (load_calibration eeprom s) ! i) \<le> 65535"
      using sint16_bound [of "eeprom i"] by (simp add: sint_scast_16_32)
  qed
qed

section \<open>The pipeline and the protocol do not interfere\<close>

lemma fold_protocol_view:
  assumes "\<And>i t. protocol_view (f i t) = protocol_view t"
  shows "protocol_view (fold f xs s) = protocol_view s"
  using assms by (induction xs arbitrary: s) simp_all

lemma read_raw_view: "protocol_view (read_raw e i t) = protocol_view t"
  by (simp add: read_raw_def protocol_view_def Let_def)

lemma process_sensor_view: "protocol_view (process_sensor i t) = protocol_view t"
  by (simp add: process_sensor_step protocol_view_def)

lemma store_calibration_view:
  "store_calibration st s = Inr s' \<Longrightarrow> protocol_view s' = protocol_view s"
proof -
  assume r: "store_calibration st s = Inr s'"
  let ?s1 = "fold (\<lambda>i t. t\<lparr>sensorEmptyOffset := (sensorEmptyOffset t)[i := sensorDiff t ! i]\<rparr>)
                  [0..<NUMSENSORS] s"
  have v1: "protocol_view ?s1 = protocol_view s"
    by (rule fold_protocol_view) (simp add: protocol_view_def)
  from r have "protocol_view s' = protocol_view ?s1"
    by (auto simp: store_calibration_def Let_def handle_error_def display_current_cal_val_def
                   uart_put_def protocol_view_def split: if_splits)
  with v1 show ?thesis by simp
qed

text \<open>
  The level pipeline leaves the protocol's part of the state alone, so the render cycles
  of the claims on the protocol can be followed without the scans between them.
\<close>

lemma pipeline_cycle_view:
  assumes "pipeline_cycle e s = Inr s'"
  shows "protocol_view s' = protocol_view s"
proof (cases "capsense_busy e")
  case True
  with assms have "s' = calculate_level s" by (simp add: pipeline_cycle_def)
  then show ?thesis by (simp add: protocol_view_def calculate_level_def Let_def)
next
  case False
  let ?s1 = "fold (read_raw e) [0..<NUMSENSORS] s"
  have v1: "protocol_view ?s1 = protocol_view s"
    by (rule fold_protocol_view) (rule read_raw_view)
  from assms False obtain s3 where sc: "scan_complete e s = Inr s3" and s': "s' = calculate_level s3"
    by (auto simp: pipeline_cycle_def split: sum.splits)
  from sc obtain s2 where
    c: "(if cal_flag ?s1 = TRUE
         then store_calibration (eeprom_write_status e) (?s1\<lparr>cal_flag := FALSE\<rparr>)
         else Inr ?s1) = Inr s2"
    and s3: "s3 = fold process_sensor [0..<NUMSENSORS] (s2\<lparr>sensorActiveCount := 0\<rparr>)"
    by (auto simp: scan_complete_def Let_def split: if_splits sum.splits)
  have v2: "protocol_view s2 = protocol_view ?s1"
  proof (cases "cal_flag ?s1 = TRUE")
    case True
    with c have "store_calibration (eeprom_write_status e) (?s1\<lparr>cal_flag := FALSE\<rparr>) = Inr s2"
      by simp
    from store_calibration_view [OF this] show ?thesis by (simp add: protocol_view_def)
  next
    case False
    with c show ?thesis by simp
  qed
  have v3: "protocol_view s3 = protocol_view (s2\<lparr>sensorActiveCount := 0\<rparr>)"
    unfolding s3 by (rule fold_protocol_view) (rule process_sensor_view)
  have "protocol_view s' = protocol_view s3"
    unfolding s' by (simp add: protocol_view_def calculate_level_def Let_def)
  with v3 v2 v1 show ?thesis by (simp add: protocol_view_def)
qed

text \<open>A failed calibration write stops the program in \<open>handle_error\<close>.\<close>

lemma failed_write_halts:
  assumes "\<not> capsense_busy e" "process_widgets_ok e" "scan_widgets_ok e"
    "cal_flag s = TRUE" "eeprom_write_status e = CY_EM_EEPROM_FAILED" "wf_state s"
  shows "pipeline_cycle e s = Inl EepromHalt"
  using assms
  by (simp add: pipeline_cycle_def scan_complete_def read_all Let_def store_calibration_def
                handle_error_def)

end
